theory Spec2Isabelle
  imports Main
begin

section \<open>Data model\<close>

text \<open>
  The review engine of \<^verbatim>\<open>src/review.ts\<close>. JavaScript strings are modelled as
  \<^typ>\<open>string\<close>, one \<^typ>\<open>char\<close> per code unit (code units below 256). Line numbers
  are JavaScript numbers holding integers; they are modelled as \<^typ>\<open>int\<close> (exact below
  \<open>2^53\<close>). A patch is the triple \<^verbatim>\<open>[number, number, string]\<close> of the source: the first
  and last new-file line of a hunk and its rendered text.
\<close>

type_synonym patch = "int \<times> int \<times> string"

section \<open>Strings and the regular expressions of the source\<close>

text \<open>
  The character classes of JavaScript regular expressions, on code units below 256:
  \<^verbatim>\<open>\d\<close>, \<^verbatim>\<open>\s\<close> (also what \<^verbatim>\<open>trim\<close> strips) and the line terminators, at which
  \<^verbatim>\<open>^\<close> matches under the \<^verbatim>\<open>m\<close> flag.
\<close>

definition is_digit :: "char \<Rightarrow> bool" where
  "is_digit c = (c \<in> set ''0123456789'')"

definition is_space :: "char \<Rightarrow> bool" where
  "is_space c = (c \<in> set [CHR 0x09, CHR 0x0A, CHR 0x0B, CHR 0x0C, CHR 0x0D, CHR 0x20, CHR 0xA0])"

definition is_line_terminator :: "char \<Rightarrow> bool" where
  "is_line_terminator c = (c = CHR 0x0A \<or> c = CHR 0x0D)"

text \<open>\<^verbatim>\<open>String.prototype.startsWith\<close>, \<^verbatim>\<open>trim\<close>, \<^verbatim>\<open>split('\n')\<close> and \<^verbatim>\<open>join('\n')\<close>.\<close>

fun startsWith :: "string \<Rightarrow> string \<Rightarrow> bool" where
  "startsWith s [] = True"
| "startsWith [] (p # ps) = False"
| "startsWith (c # cs) (p # ps) = (c = p \<and> startsWith cs ps)"

definition trim :: "string \<Rightarrow> string" where
  "trim s = rev (dropWhile is_space (rev (dropWhile is_space s)))"

fun split_nl :: "string \<Rightarrow> string list" where
  "split_nl [] = [[]]"
| "split_nl (c # cs) =
     (if c = CHR 0x0A then [] # split_nl cs
      else (case split_nl cs of [] \<Rightarrow> [[c]] | l # ls \<Rightarrow> (c # l) # ls))"


text \<open>
  \<^verbatim>\<open>indexOf(searchString, position)\<close> and \<^verbatim>\<open>substring(start, end)\<close>, for the arguments
  the source passes (non-negative integers); \<^verbatim>\<open>-1\<close> is \<^term>\<open>None\<close>.
\<close>

fun indexOf :: "string \<Rightarrow> string \<Rightarrow> nat option" where
  "indexOf [] p = (if p = [] then Some 0 else None)"
| "indexOf (c # cs) p =
     (if startsWith (c # cs) p then Some 0 else map_option Suc (indexOf cs p))"

definition indexOf_from :: "string \<Rightarrow> string \<Rightarrow> nat \<Rightarrow> nat option" where
  "indexOf_from s p position =
     (let k = min position (length s) in map_option (\<lambda>i. i + k) (indexOf (drop k s) p))"

definition substring :: "string \<Rightarrow> nat \<Rightarrow> nat \<Rightarrow> string" where
  "substring s start stop =
     (let a = min start (length s); b = min stop (length s)
      in take (max a b - min a b) (drop (min a b) s))"

text \<open>
  \<^verbatim>\<open>parseInt(digits, 10)\<close> on a string of decimal digits (the value of a digit is its
  position in \<^verbatim>\<open>0123456789\<close>), and the decimal text of a number as a template literal
  prints it (integers below \<open>10^21\<close> in absolute value).
\<close>

definition digit_val :: "char \<Rightarrow> int" where
  "digit_val c = int (length (takeWhile (\<lambda>d. d \<noteq> c) ''0123456789''))"

definition parseInt :: "string \<Rightarrow> int" where
  "parseInt ds = foldl (\<lambda>n c. 10 * n + digit_val c) 0 ds"

fun show_nat :: "nat \<Rightarrow> string" where
  "show_nat n =
     (if n < 10 then [''0123456789'' ! n]
      else show_nat (n div 10) @ [''0123456789'' ! (n mod 10)])"

declare show_nat.simps [simp del]

definition show_int :: "int \<Rightarrow> string" where
  "show_int i = (if i < 0 then ''-'' @ show_nat (nat (- i)) else show_nat (nat i))"

text \<open>
  The regular expressions of the source are sequences of four kinds of item: a literal
  text, \<^verbatim>\<open>\d+\<close> (a capture group in every use), \<^verbatim>\<open> *\<close> and the closing \<^verbatim>\<open>\s*$\<close>.
  \<^term>\<open>match_seq\<close> matches such a sequence at the start of a text and returns the captured
  digit groups and the text left over. Each repetition is greedy and is followed by an
  item that starts with a character outside its class, so that taking the longest run is
  the only way to match and no backtracking is needed.
\<close>

datatype pat = Lit string | Digits | Blanks | WsEnd

fun match_seq :: "pat list \<Rightarrow> string \<Rightarrow> (string list \<times> string) option" where
  "match_seq [] s = Some ([], s)"
| "match_seq (Lit l # ps) s =
     (if startsWith s l then match_seq ps (drop (length l) s) else None)"
| "match_seq (Digits # ps) s =
     (if takeWhile is_digit s = [] then None
      else (case match_seq ps (dropWhile is_digit s) of
              None \<Rightarrow> None
            | Some (groups, rest) \<Rightarrow> Some (takeWhile is_digit s # groups, rest)))"
| "match_seq (Blanks # ps) s = match_seq ps (dropWhile (\<lambda>c. c = CHR 0x20) s)"
| "match_seq (WsEnd # ps) s = (if list_all is_space s then match_seq ps [] else None)"

text \<open>
  An item of a pattern is local for a character when no match of the item can contain
  that character; used to show that a header is matched within its line.
\<close>

fun local_pat :: "char \<Rightarrow> pat \<Rightarrow> bool" where
  "local_pat t (Lit l) = (t \<notin> set l)"
| "local_pat t Digits = (\<not> is_digit t)"
| "local_pat t Blanks = False"
| "local_pat t WsEnd = False"

section \<open>Splitting a diff into hunks (splitPatch)\<close>

text \<open>
  The hunk header \<^verbatim>\<open>^@@ -(\d+),(\d+) \+(\d+),(\d+) @@\<close>, matched at the start of a text.
\<close>

definition hunk_header :: "pat list" where
  "hunk_header =
     [Lit ''@@ -'', Digits, Lit '','', Digits, Lit '' +'', Digits, Lit '','', Digits, Lit '' @@'']"

definition is_hunk_header :: "string \<Rightarrow> bool" where
  "is_hunk_header s = (match_seq hunk_header s \<noteq> None)"

text \<open>
  The indices at which the global, multi-line regular expression of \<^verbatim>\<open>splitPatch\<close> matches,
  in the order in which the \<^verbatim>\<open>exec\<close> loop finds them. The expression matches where the
  header stands at the start of a line (\<open>bol\<close>: at index 0 or after a line terminator);
  its tail \<^verbatim>\<open>.*$\<close> then takes the rest of the line, so the next search resumes at the end
  of that line and no index inside the line is a start of line.
\<close>

fun header_indices :: "bool \<Rightarrow> nat \<Rightarrow> string \<Rightarrow> nat list" where
  "header_indices bol i [] = []"
| "header_indices bol i (c # cs) =
     (if bol \<and> is_hunk_header (c # cs) then [i] else [])
     @ header_indices (is_line_terminator c) (i + 1) cs"

text \<open>
  The body of the \<^verbatim>\<open>while\<close> loop, over the matches: \<^verbatim>\<open>last\<close> is \<^verbatim>\<open>-1\<close> (here
  \<^term>\<open>None\<close>) until the first match.
\<close>

fun splitPatch_loop :: "string \<Rightarrow> nat list \<Rightarrow> nat option \<times> string list \<Rightarrow> nat option \<times> string list" where
  "splitPatch_loop patch [] (lastIndex, result) = (lastIndex, result)"
| "splitPatch_loop patch (index # rest) (lastIndex, result) =
     (case lastIndex of
        None \<Rightarrow> splitPatch_loop patch rest (Some index, result)
      | Some l \<Rightarrow> splitPatch_loop patch rest (Some index, result @ [substring patch l index]))"

text \<open>The argument is \<^verbatim>\<open>string | null | undefined\<close>: \<^term>\<open>None\<close> is null or undefined.\<close>

definition splitPatch :: "string option \<Rightarrow> string list" where
  "splitPatch patch_opt =
     (case patch_opt of
        None \<Rightarrow> []
      | Some patch \<Rightarrow>
          (case splitPatch_loop patch (header_indices True 0 patch) (None, []) of
             (None, result) \<Rightarrow> result
           | (Some l, result) \<Rightarrow> result @ [drop l patch]))"

text \<open>
  The lines of a text as the regular expression sees them: a new line starts after every
  line terminator.
\<close>

fun regex_lines :: "string \<Rightarrow> string list" where
  "regex_lines [] = [[]]"
| "regex_lines (c # cs) =
     (if is_line_terminator c then [] # regex_lines cs
      else (case regex_lines cs of [] \<Rightarrow> [[c]] | l # ls \<Rightarrow> (c # l) # ls))"

section \<open>Annotating a hunk (patchStartEndLine, parsePatch)\<close>

text \<open>
  \<^verbatim>\<open>pattern.exec(patch)\<close> on a fresh multi-line pattern: the capture groups of the first
  hunk header that stands at the start of a line, if there is one.
\<close>

fun exec_hunk_header :: "bool \<Rightarrow> string \<Rightarrow> string list option" where
  "exec_hunk_header bol [] = None"
| "exec_hunk_header bol (c # cs) =
     (case (if bol then match_seq hunk_header (c # cs) else None) of
        Some (groups, rest) \<Rightarrow> Some groups
      | None \<Rightarrow> exec_hunk_header (is_line_terminator c) cs)"

text \<open>
  The result is \<^verbatim>\<open>{oldHunk: {startLine, endLine}, newHunk: {startLine, endLine}}\<close>, here a
  pair of pairs, or \<^verbatim>\<open>null\<close>.
\<close>

definition patchStartEndLine :: "string \<Rightarrow> ((int \<times> int) \<times> (int \<times> int)) option" where
  "patchStartEndLine patch =
     (case exec_hunk_header True patch of
        Some [g2, g3, g4, g5] \<Rightarrow>
          (let oldBegin = parseInt g2; oldDiff = parseInt g3;
               newBegin = parseInt g4; newDiff = parseInt g5
           in Some ((oldBegin, oldBegin + oldDiff - 1), (newBegin, newBegin + newDiff - 1)))
      | _ \<Rightarrow> None)"

text \<open>
  The body lines: \<^verbatim>\<open>patch.split('\n').slice(1)\<close>, without the last line when that is
  empty.
\<close>

definition patch_lines :: "string \<Rightarrow> string list" where
  "patch_lines patch =
     (let lines = tl (split_nl patch)
      in if lines \<noteq> [] \<and> last lines = [] then butlast lines else lines)"

definition skipStart :: int where
  "skipStart = 3"

definition skipEnd :: int where
  "skipEnd = 3"

text \<open>
  The \<^verbatim>\<open>for\<close> loop of \<^verbatim>\<open>parsePatch\<close>. The state is
  \<^verbatim>\<open>(currentLine, newLine, oldHunkLines, newHunkLines)\<close>; \<open>n\<close> is \<^verbatim>\<open>lines.length\<close>.
\<close>

fun parsePatch_loop ::
  "bool \<Rightarrow> int \<Rightarrow> int \<times> int \<times> string list \<times> string list \<Rightarrow> string list \<Rightarrow>
   int \<times> int \<times> string list \<times> string list" where
  "parsePatch_loop removalOnly n st [] = st"
| "parsePatch_loop removalOnly n (currentLine0, newLine, oldHunkLines, newHunkLines) (line # rest) =
     (let currentLine = currentLine0 + 1 in
      if startsWith line ''-'' then
        parsePatch_loop removalOnly n
          (currentLine, newLine, oldHunkLines @ [drop 1 line], newHunkLines) rest
      else if startsWith line ''+'' then
        parsePatch_loop removalOnly n
          (currentLine, newLine + 1, oldHunkLines,
           newHunkLines @ [show_int newLine @ '': '' @ drop 1 line]) rest
      else
        parsePatch_loop removalOnly n
          (currentLine, newLine + 1, oldHunkLines @ [line],
           newHunkLines @
             [if removalOnly \<or> (currentLine > skipStart \<and> currentLine \<le> n - skipEnd)
              then show_int newLine @ '': '' @ line else line]) rest)"

text \<open>
  \<^verbatim>\<open>parsePatch\<close> up to the two \<^verbatim>\<open>join('\n')\<close>: the lines of the old and of the new view.
\<close>

definition parsePatch_lines :: "string \<Rightarrow> (string list \<times> string list) option" where
  "parsePatch_lines patch =
     (case patchStartEndLine patch of
        None \<Rightarrow> None
      | Some (oldHunk, newHunk) \<Rightarrow>
          (let lines = patch_lines patch;
               removalOnly = \<not> list_ex (\<lambda>line. startsWith line ''+'') lines;
               (currentLine, newLine, oldHunkLines, newHunkLines) =
                 parsePatch_loop removalOnly (int (length lines)) (0, fst newHunk, [], []) lines
           in Some (oldHunkLines, newHunkLines)))"



definition is_removed :: "string \<Rightarrow> bool" where
  "is_removed line = startsWith line ''-''"

definition is_added :: "string \<Rightarrow> bool" where
  "is_added line = startsWith line ''+''"

definition line_text :: "string \<Rightarrow> string" where
  "line_text line = (if is_removed line \<or> is_added line then drop 1 line else line)"

definition numbered :: "int \<Rightarrow> string \<Rightarrow> string" where
  "numbered newLine text = show_int newLine @ '': '' @ text"

section \<open>Packing patches into one request (doReview)\<close>

text \<open>
  The first loop of \<^verbatim>\<open>doReview\<close>: \<^verbatim>\<open>tokens\<close> starts at the token count of the prompt
  rendered so far, and the loop stops at the first patch whose tokens do not fit below
  \<^verbatim>\<open>options.heavyTokenLimits.requestTokens\<close>. The tokenizer \<^verbatim>\<open>getTokenCount\<close> is imported from
  another module and is a parameter here. The state is \<^verbatim>\<open>(tokens, patchesToPack)\<close>.
\<close>

fun patchesToPack_loop ::
  "(string \<Rightarrow> nat) \<Rightarrow> nat \<Rightarrow> nat \<times> nat \<Rightarrow> patch list \<Rightarrow> nat \<times> nat" where
  "patchesToPack_loop getTokenCount requestTokens (tokens, patchesToPack) [] =
     (tokens, patchesToPack)"
| "patchesToPack_loop getTokenCount requestTokens (tokens, patchesToPack)
       ((startLine, endLine, patch) # rest) =
     (let patchTokens = getTokenCount patch in
      if tokens + patchTokens > requestTokens then (tokens, patchesToPack)
      else patchesToPack_loop getTokenCount requestTokens
             (tokens + patchTokens, patchesToPack + 1) rest)"

text \<open>
  The second loop appends the first \<^verbatim>\<open>patchesToPack\<close> patches to \<^verbatim>\<open>ins.patches\<close>, each
  followed by its comment chain when that fits too, and by the end-of-section delimiter.
  \<^verbatim>\<open>getCommentChain\<close> stands for \<^verbatim>\<open>commenter.getCommentChainsWithinRange\<close> (the empty string
  when the call fails); \<^verbatim>\<open>hasPullRequest\<close> is the test \<^verbatim>\<open>pullRequest != null\<close>. The state is
  \<^verbatim>\<open>(tokens, patchesPacked, ins.patches)\<close>.
\<close>

definition render_section :: "string \<Rightarrow> string \<Rightarrow> string" where
  "render_section patch commentChain =
     [CHR 0x0A] @ patch @ [CHR 0x0A]
     @ (if commentChain \<noteq> '''' then
          [CHR 0x0A] @ ''---comment_chains---'' @ [CHR 0x0A] @ ''```''
          @ [CHR 0x0A] @ commentChain @ [CHR 0x0A] @ ''```'' @ [CHR 0x0A]
        else '''')
     @ [CHR 0x0A] @ ''---end_change_section---'' @ [CHR 0x0A]"

record pack_state =
  tokens :: nat
  patchesPacked :: nat
  ins_patches :: string

fun pack_loop ::
  "(string \<Rightarrow> nat) \<Rightarrow> nat \<Rightarrow> (int \<Rightarrow> int \<Rightarrow> string) \<Rightarrow> bool \<Rightarrow> nat \<Rightarrow>
   pack_state \<Rightarrow> patch list \<Rightarrow> pack_state" where
  "pack_loop getTokenCount requestTokens getCommentChain hasPullRequest patchesToPack st [] = st"
| "pack_loop getTokenCount requestTokens getCommentChain hasPullRequest patchesToPack st
       ((startLine, endLine, patch) # rest) =
     (if \<not> hasPullRequest then
        pack_loop getTokenCount requestTokens getCommentChain hasPullRequest patchesToPack st rest
      else if patchesPacked st \<ge> patchesToPack then st
      else
        let commentChain = getCommentChain startLine endLine;
            commentChainTokens = getTokenCount commentChain;
            fits = \<not> (tokens st + commentChainTokens > requestTokens);
            commentChain = (if fits then commentChain else '''');
            st' = \<lparr> tokens = (if fits then tokens st + commentChainTokens else tokens st),
                    patchesPacked = patchesPacked st + 1,
                    ins_patches = ins_patches st @ render_section patch commentChain \<rparr>
        in pack_loop getTokenCount requestTokens getCommentChain hasPullRequest patchesToPack
             st' rest)"

definition pack ::
  "(string \<Rightarrow> nat) \<Rightarrow> nat \<Rightarrow> (int \<Rightarrow> int \<Rightarrow> string) \<Rightarrow> bool \<Rightarrow> nat \<Rightarrow> string \<Rightarrow>
   patch list \<Rightarrow> pack_state" where
  "pack getTokenCount requestTokens getCommentChain hasPullRequest existingTokens ins0 patches =
     (let (tokens1, patchesToPack) =
            patchesToPack_loop getTokenCount requestTokens (existingTokens, 0) patches
      in pack_loop getTokenCount requestTokens getCommentChain hasPullRequest patchesToPack
           \<lparr> tokens = tokens1, patchesPacked = 0, ins_patches = ins0 \<rparr>
           patches)"

text \<open>The cost of a unit is the token count of its text.\<close>

definition cost :: "(string \<Rightarrow> nat) \<Rightarrow> patch \<Rightarrow> nat" where
  "cost getTokenCount p = getTokenCount (snd (snd p))"

definition prefix_cost :: "(string \<Rightarrow> nat) \<Rightarrow> nat \<Rightarrow> patch list \<Rightarrow> nat" where
  "prefix_cost getTokenCount k patches = sum_list (map (cost getTokenCount) (take k patches))"

section \<open>Choosing the commit to review from (getHighestReviewedCommitId)\<close>

text \<open>
  \<^verbatim>\<open>getHighestReviewedCommitId\<close> of \<^verbatim>\<open>review.ts\<close>. It calls three methods of the Commenter
  class, whose file is not among the sources; they are parameters here:
  \<^verbatim>\<open>commenterGetHighest\<close> is \<^verbatim>\<open>commenter.getHighestReviewedCommitId\<close>,
  \<^verbatim>\<open>getReviewedCommitIds\<close> decodes the persisted block, and \<^verbatim>\<open>allCommitIds\<close> is the result
  of \<^verbatim>\<open>commenter.getAllCommitIds()\<close>. \<^verbatim>\<open>headSha\<close> and \<^verbatim>\<open>baseSha\<close> are
  \<^verbatim>\<open>pullRequest.head.sha\<close> and \<^verbatim>\<open>pullRequest.base.sha\<close>.
\<close>

definition getHighestReviewedCommitId ::
  "(string list \<Rightarrow> string list \<Rightarrow> string) \<Rightarrow> (string \<Rightarrow> string list) \<Rightarrow> string list \<Rightarrow>
   string \<Rightarrow> string \<Rightarrow> string \<Rightarrow> string" where
  "getHighestReviewedCommitId commenterGetHighest getReviewedCommitIds allCommitIds
       existingCommitIdsBlock headSha baseSha =
     (let highestReviewedCommitId =
            (if existingCommitIdsBlock \<noteq> '''' then
               commenterGetHighest allCommitIds (getReviewedCommitIds existingCommitIdsBlock)
             else '''')
      in if highestReviewedCommitId = '''' \<or> highestReviewedCommitId = headSha
         then baseSha else highestReviewedCommitId)"

text \<open>
  Modelled from the spec: \<^verbatim>\<open>commenter.getHighestReviewedCommitId\<close>, the method that
  \<^verbatim>\<open>review.ts\<close> calls. The spec: intersect the previously reviewed ids with the branch's
  commit ids, preserving branch order (chronological), and take the most recent match.
  The value for no match is the empty string, the value \<^verbatim>\<open>review.ts\<close> tests for.
\<close>

definition commenter_getHighestReviewedCommitId :: "string list \<Rightarrow> string list \<Rightarrow> string" where
  "commenter_getHighestReviewedCommitId commitIds reviewedCommitIds =
     (case filter (\<lambda>c. c \<in> set reviewedCommitIds) commitIds of
        [] \<Rightarrow> ''''
      | m # ms \<Rightarrow> last (m # ms))"

section \<open>Sanitizing the response (_sanitizeCodeBlock, _sanitizeResponse)\<close>

text \<open>
  \<^verbatim>\<open>codeBlock.replace(/^ *(\d+): /gm, '')\<close>: every match is removed. A match starts at
  the start of the text or after a line terminator (\<open>bol\<close>); the search resumes after the
  match, whose last character is a space, so not at the start of a line.
\<close>

definition lineNumberRegex :: "pat list" where
  "lineNumberRegex = [Blanks, Digits, Lit '': '']"

function replace_lineNumber :: "bool \<Rightarrow> string \<Rightarrow> string" where
  "replace_lineNumber bol [] = []"
| "replace_lineNumber bol (c # cs) =
     (case (if bol then match_seq lineNumberRegex (c # cs) else None) of
        Some (groups, rest) \<Rightarrow> replace_lineNumber False rest
      | None \<Rightarrow> c # replace_lineNumber (is_line_terminator c) cs)"
  by pat_completeness auto
termination
proof (relation "measure (\<lambda>(bol, s). length s)", goal_cases)
  case 1
  show ?case by simp
next
  case (2 bol c cs)
  show ?case by simp
next
  case (3 bol c cs m groups rest)
  have shorter: "length r \<le> length s" if "match_seq ps s = Some (g, r)" for ps s g r
    using that
  proof (induction ps s arbitrary: g r rule: match_seq.induct)
    case (1 s)
    then show ?case by simp
  next
    case (2 l ps s)
    then show ?case by (fastforce split: if_splits)
  next
    case (3 ps s)
    have "length (dropWhile is_digit s) \<le> length s" by (rule length_dropWhile_le)
    with 3 show ?case by (fastforce split: if_splits option.splits)
  next
    case (4 ps s)
    have "length (dropWhile (\<lambda>c. c = CHR 0x20) s) \<le> length s" by (rule length_dropWhile_le)
    with 4 show ?case by fastforce
  next
    case (5 ps s)
    then show ?case by (fastforce split: if_splits)
  qed
  from 3 have m: "match_seq lineNumberRegex (c # cs) = Some (groups, rest)"
    by (simp split: if_splits)
  let ?s = "dropWhile (\<lambda>c. c = CHR 0x20) (c # cs)"
  from m have d: "takeWhile is_digit ?s \<noteq> []"
    by (auto simp: lineNumberRegex_def split: if_splits)
  from m obtain g where "match_seq [Lit '': ''] (dropWhile is_digit ?s) = Some (g, rest)"
    by (auto simp: lineNumberRegex_def split: if_splits option.splits)
  from shorter[OF this] have "length rest \<le> length (dropWhile is_digit ?s)" .
  also have "\<dots> < length ?s"
    using d by (metis length_append takeWhile_dropWhile_id length_greater_0_conv
        less_add_same_cancel2)
  also have "\<dots> \<le> length (c # cs)" by (rule length_dropWhile_le)
  finally show ?case by simp
qed

text \<open>
  The \<^verbatim>\<open>while\<close> loop of \<^verbatim>\<open>_sanitizeCodeBlock\<close>, entered with the index of an opening
  fence. The state is \<^verbatim>\<open>(comment, codeBlockStartIndex)\<close>.
\<close>

definition codeBlockEnd :: string where
  "codeBlockEnd = ''```''"

function sanitizeCodeBlock_loop :: "string \<Rightarrow> string \<Rightarrow> nat \<Rightarrow> string" where
  "sanitizeCodeBlock_loop codeBlockStart comment codeBlockStartIndex =
     (case indexOf_from comment codeBlockEnd (codeBlockStartIndex + length codeBlockStart) of
        None \<Rightarrow> comment
      | Some codeBlockEndIndex \<Rightarrow>
          (let codeBlock = substring comment (codeBlockStartIndex + length codeBlockStart)
                             codeBlockEndIndex;
               sanitizedBlock = replace_lineNumber True codeBlock;
               comment' = take (codeBlockStartIndex + length codeBlockStart) comment
                          @ sanitizedBlock @ drop codeBlockEndIndex comment
           in (case indexOf_from comment' codeBlockStart
                      (codeBlockStartIndex + length codeBlockStart + length sanitizedBlock
                       + length codeBlockEnd) of
                 None \<Rightarrow> comment'
               | Some nextIndex \<Rightarrow> sanitizeCodeBlock_loop codeBlockStart comment' nextIndex)))"
  by pat_completeness auto
termination
proof (relation "measure (\<lambda>(codeBlockStart, comment, i). length comment - i)", goal_cases)
  case 1
  show ?case by simp
next
  case (2 codeBlockStart comment i e codeBlock sanitizedBlock comment' nextIndex)
  have found: "min k (length s) \<le> j \<and> j + length p \<le> length s"
    if "indexOf_from s p k = Some j" for s p k j
  proof -
    have sw: "length q \<le> length t" if "startsWith t q" for t q
      using that by (induction t q rule: startsWith.induct) auto
    have "j' + length q \<le> length t" if "indexOf t q = Some j'" for t q j'
      using that
    proof (induction t arbitrary: j')
      case Nil
      then show ?case by (simp split: if_splits)
    next
      case (Cons a t)
      then show ?case using sw[of "a # t" q] by (auto split: if_splits)
    qed
    with that show ?thesis by (fastforce simp: indexOf_from_def Let_def)
  qed
  let ?a = "i + length codeBlockStart"
  from found[OF 2(1)] have e: "min ?a (length comment) \<le> e" "e + 3 \<le> length comment"
    by (simp_all add: codeBlockEnd_def)
  have len': "length comment' = min ?a (length comment) + length sanitizedBlock
      + (length comment - e)"
    using 2(4) by simp
  from found[OF 2(5)[unfolded 2(3)[symmetric] 2(4)[symmetric]]]
  have n: "min (?a + length sanitizedBlock + length codeBlockEnd) (length comment') \<le> nextIndex"
    "nextIndex + length codeBlockStart \<le> length comment'"
    by simp_all
  have "length comment' - nextIndex < length comment - i"
    using e n len' by (simp add: codeBlockEnd_def min_def split: if_splits)
  then show ?case by simp
qed

declare sanitizeCodeBlock_loop.simps [simp del]

definition sanitizeCodeBlock :: "string \<Rightarrow> string \<Rightarrow> string" where
  "sanitizeCodeBlock comment codeBlockLabel =
     (let codeBlockStart = ''```'' @ codeBlockLabel in
      case indexOf comment codeBlockStart of
        None \<Rightarrow> comment
      | Some codeBlockStartIndex \<Rightarrow>
          sanitizeCodeBlock_loop codeBlockStart comment codeBlockStartIndex)"

definition sanitizeResponse :: "string \<Rightarrow> string" where
  "sanitizeResponse comment =
     sanitizeCodeBlock (sanitizeCodeBlock comment ''suggestion'') ''diff''"


section \<open>Parsing the response into reviews (parseReview)\<close>

record review =
  startLine :: int
  endLine :: int
  comment :: string

text \<open>
  \<^verbatim>\<open>patches[0][0]\<close> on an empty \<^verbatim>\<open>patches\<close> reads an index of \<^verbatim>\<open>undefined\<close>, which
  throws a TypeError; nothing in \<^verbatim>\<open>parseReview\<close> catches it.
\<close>

datatype error = TypeError

text \<open>
  The regular expression \<^verbatim>\<open>/(?:^|\s)(\d+)-(\d+):\s*$/\<close>, without the \<^verbatim>\<open>m\<close> flag, as
  \<^verbatim>\<open>line.match\<close> applies it: the start positions are tried from the left, at each one the
  alternative \<^verbatim>\<open>^\<close> (possible at index 0 only) before the alternative \<^verbatim>\<open>\s\<close>.
\<close>

definition lineNumberRange :: "pat list" where
  "lineNumberRange = [Digits, Lit ''-'', Digits, Lit '':'', WsEnd]"

fun match_after_space :: "string \<Rightarrow> string list option" where
  "match_after_space [] = None"
| "match_after_space (c # cs) =
     (case (if is_space c then match_seq lineNumberRange cs else None) of
        Some (groups, rest) \<Rightarrow> Some groups
      | None \<Rightarrow> match_after_space cs)"

definition lineNumberRangeMatch :: "string \<Rightarrow> string list option" where
  "lineNumberRangeMatch line =
     (case match_seq lineNumberRange line of
        Some (groups, rest) \<Rightarrow> Some groups
      | None \<Rightarrow> match_after_space line)"

definition commentSeparator :: string where
  "commentSeparator = ''---''"

text \<open>The two notes that \<^verbatim>\<open>storeReview\<close> puts in front of a comment it moves.\<close>

definition note_greatest_overlap :: "int \<Rightarrow> int \<Rightarrow> string" where
  "note_greatest_overlap s e =
     ''> Note: This review was outside of the patch, so it was mapped to the patch with the greatest overlap. Original lines [''
     @ show_int s @ ''-'' @ show_int e @ '']'' @ [CHR 0x0A, CHR 0x0A]"

definition note_no_overlap :: "int \<Rightarrow> int \<Rightarrow> string" where
  "note_no_overlap s e =
     ''> Note: This review was outside of the patch, but no patch was found that overlapped with it. Original lines [''
     @ show_int s @ ''-'' @ show_int e @ '']'' @ [CHR 0x0A, CHR 0x0A]"

text \<open>
  The \<^verbatim>\<open>for\<close> loop of \<^verbatim>\<open>storeReview\<close> over the patches. The state is
  \<^verbatim>\<open>(withinPatch, bestPatchStartLine, bestPatchEndLine, maxIntersection)\<close>; the loop
  breaks once \<^verbatim>\<open>withinPatch\<close> holds.
\<close>

definition intersectionLength :: "int \<Rightarrow> int \<Rightarrow> int \<Rightarrow> int \<Rightarrow> int" where
  "intersectionLength reviewStart reviewEnd patchStart patchEnd =
     (let intersectionStart = max reviewStart patchStart;
          intersectionEnd = min reviewEnd patchEnd
      in max 0 (intersectionEnd - intersectionStart + 1))"

fun bestPatch_loop ::
  "int \<Rightarrow> int \<Rightarrow> bool \<times> int \<times> int \<times> int \<Rightarrow> patch list \<Rightarrow> bool \<times> int \<times> int \<times> int" where
  "bestPatch_loop reviewStart reviewEnd st [] = st"
| "bestPatch_loop reviewStart reviewEnd
       (withinPatch, bestPatchStartLine, bestPatchEndLine, maxIntersection)
       ((patchStart, patchEnd, text) # rest) =
     (let intersection = intersectionLength reviewStart reviewEnd patchStart patchEnd;
          st = (if intersection > maxIntersection
                then (intersection = reviewEnd - reviewStart + 1, patchStart, patchEnd, intersection)
                else (withinPatch, bestPatchStartLine, bestPatchEndLine, maxIntersection))
      in if fst st then st else bestPatch_loop reviewStart reviewEnd st rest)"

text \<open>
  \<^verbatim>\<open>storeReview\<close>. The variables it shares with the scan, \<^verbatim>\<open>currentStartLine\<close>,
  \<^verbatim>\<open>currentEndLine\<close> (a number or \<^verbatim>\<open>null\<close>) and \<^verbatim>\<open>currentComment\<close>, are the triple
  \<open>cur\<close>; \<^verbatim>\<open>reviews\<close> is passed in and returned.
\<close>

type_synonym current = "int option \<times> int option \<times> string"

definition storeReview :: "patch list \<Rightarrow> current \<Rightarrow> review list \<Rightarrow> error + review list" where
  "storeReview patches cur reviews =
     (case cur of
        (Some currentStartLine, Some currentEndLine, currentComment) \<Rightarrow>
          (case bestPatch_loop currentStartLine currentEndLine (False, - 1, - 1, 0) patches of
             (withinPatch, bestPatchStartLine, bestPatchEndLine, maxIntersection) \<Rightarrow>
               if \<not> withinPatch then
                 if bestPatchStartLine \<noteq> - 1 \<and> bestPatchEndLine \<noteq> - 1 then
                   Inr (reviews @
                     [\<lparr> startLine = bestPatchStartLine, endLine = bestPatchEndLine,
                        comment = note_greatest_overlap currentStartLine currentEndLine
                                  @ currentComment \<rparr>])
                 else
                   (case patches of
                      [] \<Rightarrow> Inl TypeError
                    | (firstStart, firstEnd, text) # rest \<Rightarrow>
                        Inr (reviews @
                          [\<lparr> startLine = firstStart, endLine = firstEnd,
                             comment = note_no_overlap currentStartLine currentEndLine
                                       @ currentComment \<rparr>]))
               else
                 Inr (reviews @
                   [\<lparr> startLine = currentStartLine, endLine = currentEndLine,
                      comment = currentComment \<rparr>]))
      | _ \<Rightarrow> Inr reviews)"

text \<open>The scan over the lines of the response, and the final \<^verbatim>\<open>storeReview()\<close>.\<close>

fun parseReview_loop ::
  "patch list \<Rightarrow> current \<Rightarrow> review list \<Rightarrow> string list \<Rightarrow> error + review list" where
  "parseReview_loop patches cur reviews [] = storeReview patches cur reviews"
| "parseReview_loop patches cur reviews (line # rest) =
     (case lineNumberRangeMatch line of
        Some groups \<Rightarrow>
          (case storeReview patches cur reviews of
             Inl e \<Rightarrow> Inl e
           | Inr reviews' \<Rightarrow>
               parseReview_loop patches
                 (Some (parseInt (groups ! 0)), Some (parseInt (groups ! 1)), '''') reviews' rest)
      | None \<Rightarrow>
          if trim line = commentSeparator then
            (case storeReview patches cur reviews of
               Inl e \<Rightarrow> Inl e
             | Inr reviews' \<Rightarrow> parseReview_loop patches (None, None, '''') reviews' rest)
          else
            (case cur of
               (Some currentStartLine, Some currentEndLine, currentComment) \<Rightarrow>
                 parseReview_loop patches
                   (Some currentStartLine, Some currentEndLine, currentComment @ line @ [CHR 0x0A])
                   reviews rest
             | _ \<Rightarrow> parseReview_loop patches cur reviews rest))"

text \<open>
  The lines that the scan reads: \<^verbatim>\<open>_sanitizeResponse(response.trim()).split('\n')\<close>.
\<close>

definition response_lines :: "string \<Rightarrow> string list" where
  "response_lines response = split_nl (sanitizeResponse (trim response))"

definition parseReview :: "string \<Rightarrow> patch list \<Rightarrow> error + review list" where
  "parseReview response patches =
     parseReview_loop patches (None, None, '''') [] (response_lines response)"

text \<open>
  The new-file lines of a range, and the range of a patch, to state what
  \<^verbatim>\<open>storeReview\<close> does with a comment.
\<close>

definition lines_of :: "int \<Rightarrow> int \<Rightarrow> int set" where
  "lines_of s e = {s..e}"

definition patch_range :: "patch \<Rightarrow> int \<times> int" where
  "patch_range p = (fst p, fst (snd p))"

definition overlap :: "int \<Rightarrow> int \<Rightarrow> patch \<Rightarrow> int" where
  "overlap s e p = intersectionLength s e (fst p) (fst (snd p))"

text \<open>
  What holds of every review that \<^verbatim>\<open>storeReview\<close> pushes: its range is the range of a
  patch of the list, or it is the range the response gave, within the lines of a patch.
\<close>

definition anchored :: "patch list \<Rightarrow> review \<Rightarrow> bool" where
  "anchored patches r =
     ((\<exists>p \<in> set patches. (startLine r, endLine r) = patch_range p)
      \<or> (startLine r \<le> endLine r
          \<and> (\<exists>p \<in> set patches.
                lines_of (startLine r) (endLine r) \<subseteq> lines_of (fst p) (fst (snd p)))))"

text \<open>The scan is collecting a comment when both line numbers are set.\<close>

fun collecting :: "current \<Rightarrow> bool" where
  "collecting (Some s, Some e, c) = True"
| "collecting cur = False"

text \<open>
  The lines that the scan takes for the opening of a range and for a separator, described
  by their form: a range line ends with \<^verbatim>\<open>start-end:\<close> and optional white space, and the
  range stands at the start of the line or after a white-space character (any text may
  come before that); a separator line is \<^verbatim>\<open>---\<close> between optional white space.
\<close>

definition range_line :: "string \<Rightarrow> string \<Rightarrow> string \<Rightarrow> bool" where
  "range_line line d1 d2 =
     (\<exists>pre ws. line = pre @ d1 @ ''-'' @ d2 @ '':'' @ ws
        \<and> (pre = [] \<or> is_space (last pre))
        \<and> d1 \<noteq> [] \<and> list_all is_digit d1 \<and> d2 \<noteq> [] \<and> list_all is_digit d2
        \<and> list_all is_space ws)"

definition separator_line :: "string \<Rightarrow> bool" where
  "separator_line line =
     (\<exists>l r. line = l @ ''---'' @ r \<and> list_all is_space l \<and> list_all is_space r)"

text \<open>
  The same two kinds of line in the words of the specification: optional leading white
  space, a decimal range, a colon and the end of the line; a line equal to the separator.
\<close>

definition claimed_range_line :: "string \<Rightarrow> bool" where
  "claimed_range_line line =
     (case match_seq [Digits, Lit ''-'', Digits, Lit '':''] (dropWhile is_space line) of
        Some (groups, rest) \<Rightarrow> rest = []
      | None \<Rightarrow> False)"

definition claimed_separator_line :: "string \<Rightarrow> bool" where
  "claimed_separator_line line = (line = ''---'')"

section \<open>Facts about the string functions\<close>

lemma takeWhile_append_stop: "\<not> P t \<Longrightarrow> takeWhile P (l @ t # r) = takeWhile P l"
  by (induction l) auto

lemma dropWhile_append_stop: "\<not> P t \<Longrightarrow> dropWhile P (l @ t # r) = dropWhile P l @ t # r"
  by (induction l) auto

lemma startsWith_append_stop: "t \<notin> set p \<Longrightarrow> startsWith (l @ t # r) p = startsWith l p"
  by (induction l p rule: startsWith.induct) auto

lemma startsWith_length: "startsWith s p \<Longrightarrow> length p \<le> length s"
  by (induction s p rule: startsWith.induct) auto

lemma match_seq_local:
  "\<forall>p \<in> set ps. local_pat t p \<Longrightarrow> ps \<noteq> [] \<Longrightarrow>
   (match_seq ps (l @ t # r) = None) = (match_seq ps l = None)"
proof (induction ps arbitrary: l)
  case Nil
  then show ?case by simp
next
  case (Cons p ps)
  show ?case
  proof (cases p)
    case (Lit lit)
    with Cons.prems have t: "t \<notin> set lit" by simp
    show ?thesis
    proof (cases "startsWith l lit")
      case True
      then have len: "length lit \<le> length l" by (rule startsWith_length)
      show ?thesis
      proof (cases "ps = []")
        case True
        with Lit t \<open>startsWith l lit\<close> show ?thesis by (simp add: startsWith_append_stop)
      next
        case False
        with Cons.IH[of "drop (length lit) l"] Cons.prems(1)
        have "(match_seq ps (drop (length lit) l @ t # r) = None) =
              (match_seq ps (drop (length lit) l) = None)" by simp
        with Lit t True len show ?thesis by (simp add: startsWith_append_stop)
      qed
    next
      case False
      with Lit t show ?thesis by (simp add: startsWith_append_stop)
    qed
  next
    case Digits
    with Cons.prems have t: "\<not> is_digit t" by simp
    show ?thesis
    proof (cases "ps = []")
      case True
      with Digits t show ?thesis
        by (simp add: takeWhile_append_stop dropWhile_append_stop)
    next
      case False
      with Cons.IH[of "dropWhile is_digit l"] Cons.prems(1)
      have "(match_seq ps (dropWhile is_digit l @ t # r) = None) =
            (match_seq ps (dropWhile is_digit l) = None)" by simp
      with Digits t show ?thesis
        by (auto simp: takeWhile_append_stop dropWhile_append_stop split: option.splits)
    qed
  next
    case Blanks
    with Cons.prems show ?thesis by simp
  next
    case WsEnd
    with Cons.prems show ?thesis by simp
  qed
qed

section \<open>One hunk per header line\<close>

lemma is_hunk_header_local:
  "is_line_terminator t \<Longrightarrow> is_hunk_header (l @ t # r) = is_hunk_header l"
  unfolding is_hunk_header_def
  by (subst match_seq_local)
     (auto simp: hunk_header_def is_line_terminator_def is_digit_def)

lemma regex_lines_nonempty: "regex_lines s \<noteq> []"
  by (induction s) (auto split: list.splits)

lemma regex_lines_hd:
  "s = hd (regex_lines s) \<or> (\<exists>t r. is_line_terminator t \<and> s = hd (regex_lines s) @ t # r)"
proof (induction s)
  case Nil
  then show ?case by simp
next
  case (Cons c cs)
  show ?case
  proof (cases "is_line_terminator c")
    case True
    then show ?thesis by auto
  next
    case False
    obtain l ls where l: "regex_lines cs = l # ls"
      using regex_lines_nonempty[of cs] by (cases "regex_lines cs") auto
    with Cons.IH False show ?thesis by auto
  qed
qed

lemma is_hunk_header_first_line: "is_hunk_header s = is_hunk_header (hd (regex_lines s))"
  using regex_lines_hd[of s] is_hunk_header_local by metis

lemma not_hunk_header_Nil: "\<not> is_hunk_header []"
  by (simp add: is_hunk_header_def hunk_header_def)

lemma not_hunk_header_terminator: "is_line_terminator c \<Longrightarrow> \<not> is_hunk_header (c # cs)"
  by (auto simp: is_hunk_header_def hunk_header_def is_line_terminator_def)

lemma length_header_indices:
  "length (header_indices bol i s) =
   length (filter is_hunk_header (if bol then regex_lines s else tl (regex_lines s)))"
proof (induction s arbitrary: bol i)
  case Nil
  then show ?case by (simp add: not_hunk_header_Nil)
next
  case (Cons c cs)
  show ?case
  proof (cases "is_line_terminator c")
    case True
    then show ?thesis
      using Cons.IH[of True "i + 1"]
      by (simp add: not_hunk_header_terminator not_hunk_header_Nil)
  next
    case False
    obtain l ls where l: "regex_lines cs = l # ls"
      using regex_lines_nonempty[of cs] by (cases "regex_lines cs") auto
    have "is_hunk_header (c # cs) = is_hunk_header (c # l)"
      using is_hunk_header_first_line[of "c # cs"] False l by simp
    then show ?thesis
      using Cons.IH[of False "i + 1"] False l by simp
  qed
qed

lemma splitPatch_loop_length:
  "splitPatch_loop patch idxs (l, result) = (l', result') \<Longrightarrow>
   length result' = length result + (case l of None \<Rightarrow> length idxs - 1 | Some x \<Rightarrow> length idxs)
   \<and> (l' = None) = (l = None \<and> idxs = [])"
proof (induction idxs arbitrary: l result)
  case Nil
  then show ?case by (cases l) auto
next
  case (Cons i idxs)
  then show ?case by (cases l) (auto split: option.splits)
qed

lemma length_splitPatch:
  "length (splitPatch (Some patch)) = length (header_indices True 0 patch)"
proof -
  obtain l' result' where r:
    "splitPatch_loop patch (header_indices True 0 patch) (None, []) = (l', result')"
    by (cases "splitPatch_loop patch (header_indices True 0 patch) (None, [])") auto
  from splitPatch_loop_length[OF r] show ?thesis
    by (cases l') (auto simp: splitPatch_def r)
qed

lemma header_indices_no_terminator:
  "\<forall>c \<in> set s. \<not> is_line_terminator c \<Longrightarrow> header_indices False i s = []"
  by (induction s arbitrary: i) auto

lemma splitPatch_header_only:
  assumes "is_hunk_header h" "\<forall>c \<in> set h. \<not> is_line_terminator c"
  shows "splitPatch (Some h) = [h]"
proof -
  from assms(1) obtain c cs where h: "h = c # cs"
    by (cases h) (auto simp: not_hunk_header_Nil)
  have "header_indices True 0 h = [0]"
    using assms h header_indices_no_terminator[of cs 1] by simp
  then show ?thesis by (simp add: splitPatch_def)
qed

lemma header_indices_props:
  "j \<in> set (header_indices bol i s) \<Longrightarrow>
   i \<le> j \<and> j < i + length s \<and> is_hunk_header (drop (j - i) s)
   \<and> (j = i \<and> bol \<or> i < j \<and> is_line_terminator (s ! (j - i - 1)))"
proof (induction s arbitrary: bol i)
  case Nil
  then show ?case by simp
next
  case (Cons c cs)
  show ?case
  proof (cases "j = i")
    case True
    have "i \<notin> set (header_indices (is_line_terminator c) (i + 1) cs)"
      using Cons.IH[of "is_line_terminator c" "i + 1"] True by auto
    with Cons.prems True show ?thesis by (auto split: if_splits)
  next
    case False
    with Cons.prems have "j \<in> set (header_indices (is_line_terminator c) (i + 1) cs)"
      by (auto split: if_splits)
    from Cons.IH[OF this] have IH: "i + 1 \<le> j" "j < i + 1 + length cs"
      "is_hunk_header (drop (j - (i + 1)) cs)"
      "j = i + 1 \<and> is_line_terminator c \<or> i + 1 < j \<and> is_line_terminator (cs ! (j - (i + 1) - 1))"
      by simp_all
    obtain d where d: "j - i = Suc d" "j - (i + 1) = d" using IH(1) by (cases "j - i") auto
    have t: "is_line_terminator ((c # cs) ! (j - i - 1))"
    proof (cases d)
      case 0
      with d IH(4) show ?thesis by auto
    next
      case (Suc d')
      with d IH(4) show ?thesis by auto
    qed
    from IH(1,2,3) d t show ?thesis by simp
  qed
qed

lemma header_indices_sorted: "sorted_wrt (<) (header_indices bol i s)"
proof (induction s arbitrary: bol i)
  case Nil
  then show ?case by simp
next
  case (Cons c cs)
  have "\<forall>j \<in> set (header_indices (is_line_terminator c) (i + 1) cs). i < j"
  proof
    fix j assume "j \<in> set (header_indices (is_line_terminator c) (i + 1) cs)"
    from header_indices_props[OF this] show "i < j" by simp
  qed
  with Cons.IH[of "is_line_terminator c" "i + 1"] show ?case by simp
qed

lemma splitPatch_loop_Some:
  "splitPatch_loop patch idxs (Some l, result) =
     (Some (last (l # idxs)),
      result @ map (\<lambda>(a, b). substring patch a b) (zip (l # idxs) idxs))"
  by (induction idxs arbitrary: l result) auto

lemma splitPatch_hunks:
  "splitPatch (Some patch) =
     (case header_indices True 0 patch of
        [] \<Rightarrow> []
      | j # js \<Rightarrow> map (\<lambda>(a, b). substring patch a b) (zip (j # js) js)
                  @ [drop (last (j # js)) patch])"
  by (simp add: splitPatch_def splitPatch_loop_Some split: list.splits)

lemma concat_hunks:
  "sorted_wrt (<) (l # idxs) \<Longrightarrow> \<forall>j \<in> set (l # idxs). j \<le> length patch \<Longrightarrow>
   concat (map (\<lambda>(a, b). substring patch a b) (zip (l # idxs) idxs))
     @ drop (last (l # idxs)) patch = drop l patch"
proof (induction idxs arbitrary: l)
  case Nil
  then show ?case by simp
next
  case (Cons i idxs)
  from Cons.prems have li: "l < i" "i \<le> length patch" by simp_all
  have IH: "concat (map (\<lambda>(a, b). substring patch a b) (zip (i # idxs) idxs))
     @ drop (last (i # idxs)) patch = drop i patch"
    using Cons.prems by (intro Cons.IH) simp_all
  have "substring patch l i = take (i - l) (drop l patch)"
    using li by (simp add: substring_def Let_def min_def max_def)
  moreover have "drop i patch = drop (i - l) (drop l patch)" using li by simp
  ultimately have "substring patch l i @ drop i patch = drop l patch"
    by (simp only: append_take_drop_id)
  with IH show ?case by simp
qed

lemma zip_tl_sorted:
  "sorted_wrt (<) (l # idxs) \<Longrightarrow> (a, b) \<in> set (zip (l # idxs) idxs) \<Longrightarrow>
   a < b \<and> a \<in> set (l # idxs) \<and> b \<in> set idxs"
proof (induction idxs arbitrary: l)
  case Nil
  then show ?case by simp
next
  case (Cons i idxs)
  from Cons.prems(2) have "(a, b) = (l, i) \<or> (a, b) \<in> set (zip (i # idxs) idxs)" by simp
  then show ?case
  proof
    assume "(a, b) = (l, i)"
    with Cons.prems(1) show ?thesis by simp
  next
    assume "(a, b) \<in> set (zip (i # idxs) idxs)"
    with Cons.IH[of i] Cons.prems(1) show ?thesis by auto
  qed
qed

lemma is_hunk_header_piece:
  assumes a: "a \<in> set (header_indices True 0 patch)"
    and b: "b \<in> set (header_indices True 0 patch)" and ab: "a < b"
  shows "is_hunk_header (substring patch a b)"
proof -
  from header_indices_props[OF a] have ha: "is_hunk_header (drop a patch)" by simp
  from header_indices_props[OF b] ab have hb: "b < length patch"
    "is_line_terminator (patch ! (b - 1))" by auto
  define x where "x = take (b - a - 1) (drop a patch)"
  have eq: "drop a patch = x @ patch ! (b - 1) # drop b patch"
  proof -
    have "b - a - 1 < length (drop a patch)" using ab hb(1) by simp
    from id_take_nth_drop[OF this]
    have "drop a patch = x @ drop a patch ! (b - a - 1) # drop (Suc (b - a - 1)) (drop a patch)"
      by (simp add: x_def)
    moreover have "drop a patch ! (b - a - 1) = patch ! (b - 1)" using ab hb(1) by simp
    moreover have "drop (Suc (b - a - 1)) (drop a patch) = drop b patch" using ab by simp
    ultimately show ?thesis by simp
  qed
  have "is_hunk_header x" using ha is_hunk_header_local[OF hb(2), of x "drop b patch"] eq by simp
  then have h: "is_hunk_header (x @ [patch ! (b - 1)])"
    using is_hunk_header_local[OF hb(2), of x "[]"] by simp
  have "substring patch a b = take (b - a) (drop a patch)"
    using ab hb(1) by (simp add: substring_def Let_def min_def max_def)
  also have "\<dots> = take (b - a) (x @ patch ! (b - 1) # drop b patch)" by (simp only: eq[symmetric])
  also have "\<dots> = x @ [patch ! (b - 1)]"
  proof -
    have "length x = b - a - 1" using ab hb(1) by (simp add: x_def)
    then have "b - a = Suc (length x)" using ab by simp
    then show ?thesis by simp
  qed
  finally show ?thesis using h by simp
qed

lemma splitPatch_hunks_start_with_header:
  "h \<in> set (splitPatch (Some patch)) \<Longrightarrow> is_hunk_header h"
proof -
  assume h: "h \<in> set (splitPatch (Some patch))"
  show ?thesis
  proof (cases "header_indices True 0 patch")
    case Nil
    with h show ?thesis by (simp add: splitPatch_hunks)
  next
    case (Cons j js)
    have s: "sorted_wrt (<) (j # js)" using header_indices_sorted[of True 0 patch] Cons by simp
    from h Cons have "h = drop (last (j # js)) patch
        \<or> (\<exists>(a, b) \<in> set (zip (j # js) js). h = substring patch a b)"
      by (auto simp: splitPatch_hunks)
    then show ?thesis
    proof
      assume e: "h = drop (last (j # js)) patch"
      have "last (j # js) \<in> set (header_indices True 0 patch)"
        unfolding Cons by (rule last_in_set) simp
      from header_indices_props[OF this] e show ?thesis by simp
    next
      assume "\<exists>(a, b) \<in> set (zip (j # js) js). h = substring patch a b"
      then obtain a b where ab: "(a, b) \<in> set (zip (j # js) js)" "h = substring patch a b"
        by auto
      from zip_tl_sorted[OF s ab(1)] have "a < b" "a \<in> set (header_indices True 0 patch)"
        "b \<in> set (header_indices True 0 patch)" by (simp_all add: Cons)
      from is_hunk_header_piece[OF this(2) this(3) this(1)] ab(2) show ?thesis by simp
    qed
  qed
qed

lemma splitPatch_concat: "\<exists>pre. patch = pre @ concat (splitPatch (Some patch))"
proof (cases "header_indices True 0 patch")
  case Nil
  then show ?thesis by (simp add: splitPatch_hunks)
next
  case (Cons j js)
  have s: "sorted_wrt (<) (j # js)" using header_indices_sorted[of True 0 patch] Cons by simp
  have b: "\<forall>i \<in> set (j # js). i \<le> length patch"
    using header_indices_props[of _ True 0 patch] Cons by fastforce
  have "concat (splitPatch (Some patch)) = drop j patch"
    using concat_hunks[OF s b] by (simp add: splitPatch_hunks Cons)
  then have "patch = take j patch @ concat (splitPatch (Some patch))" by simp
  then show ?thesis by blast
qed

text \<open>
  Claim C8. \<^verbatim>\<open>splitPatch\<close> returns one hunk per hunk-header line: as many hunks as there
  are lines that start with a hunk header, none when there is no such line (and none for a
  null patch), and a text that is one header line with nothing after it yields that one
  hunk, whose body is empty. Every hunk starts with its header, and the hunks, one after
  the other, are the text from the first header line to the end. The function has no
  failing branch.
\<close>

theorem splitPatch_one_hunk_per_header:
  "length (splitPatch (Some patch)) = length (filter is_hunk_header (regex_lines patch))
   \<and> (filter is_hunk_header (regex_lines patch) = [] \<longrightarrow> splitPatch (Some patch) = [])
   \<and> (is_hunk_header patch \<and> (\<forall>c \<in> set patch. \<not> is_line_terminator c)
        \<longrightarrow> splitPatch (Some patch) = [patch])
   \<and> (\<forall>h \<in> set (splitPatch (Some patch)). is_hunk_header h)
   \<and> (\<exists>pre. patch = pre @ concat (splitPatch (Some patch)))
   \<and> splitPatch None = []"
proof -
  have a: "length (splitPatch (Some patch)) = length (filter is_hunk_header (regex_lines patch))"
    by (simp add: length_splitPatch length_header_indices)
  have b: "filter is_hunk_header (regex_lines patch) = [] \<longrightarrow> splitPatch (Some patch) = []"
  proof
    assume "filter is_hunk_header (regex_lines patch) = []"
    with a have "length (splitPatch (Some patch)) = 0" by simp
    then show "splitPatch (Some patch) = []" by simp
  qed
  have c: "is_hunk_header patch \<and> (\<forall>c \<in> set patch. \<not> is_line_terminator c)
        \<longrightarrow> splitPatch (Some patch) = [patch]"
    using splitPatch_header_only by blast
  have d: "splitPatch None = []" by (simp add: splitPatch_def)
  have e: "\<forall>h \<in> set (splitPatch (Some patch)). is_hunk_header h"
    using splitPatch_hunks_start_with_header by blast
  have f: "\<exists>pre. patch = pre @ concat (splitPatch (Some patch))"
    by (rule splitPatch_concat)
  from a b c e f d show ?thesis by (intro conjI)
qed

theorem splitPatch_one_hunk_per_header_witness:
  "is_hunk_header ''@@ -1,1 +1,1 @@''
   \<and> list_all (\<lambda>c. \<not> is_line_terminator c) ''@@ -1,1 +1,1 @@''
   \<and> splitPatch (Some ''@@ -1,1 +1,1 @@'') = [''@@ -1,1 +1,1 @@'']
   \<and> filter is_hunk_header (regex_lines ''index 1..2'') = []
   \<and> splitPatch (Some ''index 1..2'') = []"
  using splitPatch_one_hunk_per_header[of "''@@ -1,1 +1,1 @@''"]
    splitPatch_one_hunk_per_header[of "''index 1..2''"]
  by (simp add: is_hunk_header_def hunk_header_def is_digit_def is_line_terminator_def)

section \<open>The two views of a hunk\<close>

lemma parsePatch_loop_spec:
  "\<exists>olds news.
     parsePatch_loop ro n (cl, nl, ol, nwl) ls =
       (cl + int (length ls), nl + int (length (filter (\<lambda>l. \<not> is_removed l) ls)),
        ol @ olds, nwl @ news)
   \<and> olds = map line_text (filter (\<lambda>l. \<not> is_added l) ls)
   \<and> length news = length (filter (\<lambda>l. \<not> is_removed l) ls)
   \<and> (\<forall>i < length ls. \<not> is_removed (ls ! i) \<longrightarrow>
         news ! length (filter (\<lambda>l. \<not> is_removed l) (take i ls)) =
           (if is_added (ls ! i) \<or> ro \<or>
               (skipStart < cl + int i + 1 \<and> cl + int i + 1 \<le> n - skipEnd)
            then numbered (nl + int (length (filter (\<lambda>l. \<not> is_removed l) (take i ls))))
                   (line_text (ls ! i))
            else ls ! i))"
proof (induction ls arbitrary: cl nl ol nwl)
  case Nil
  then show ?case by simp
next
  case (Cons line rest)
  let ?k = "\<lambda>xs i. length (filter (\<lambda>l. \<not> is_removed l) (take i xs))"
  let ?out = "\<lambda>cl nl xs i. (if is_added (xs ! i) \<or> ro \<or>
               (skipStart < cl + int i + 1 \<and> cl + int i + 1 \<le> n - skipEnd)
            then numbered (nl + int (?k xs i)) (line_text (xs ! i)) else xs ! i)"
  consider (rem) "is_removed line" | (add) "\<not> is_removed line" "is_added line"
    | (ctx) "\<not> is_removed line" "\<not> is_added line" by blast
  then show ?case
  proof cases
    case rem
    then have na: "\<not> is_added line"
      by (cases line) (auto simp: is_removed_def is_added_def)
    from Cons.IH[of "cl + 1" nl "ol @ [drop 1 line]" nwl]
    obtain olds news where IH:
      "parsePatch_loop ro n (cl + 1, nl, ol @ [drop 1 line], nwl) rest =
         (cl + 1 + int (length rest), nl + int (length (filter (\<lambda>l. \<not> is_removed l) rest)),
          (ol @ [drop 1 line]) @ olds, nwl @ news)"
      "olds = map line_text (filter (\<lambda>l. \<not> is_added l) rest)"
      "length news = length (filter (\<lambda>l. \<not> is_removed l) rest)"
      "\<forall>i < length rest. \<not> is_removed (rest ! i) \<longrightarrow> news ! ?k rest i = ?out (cl + 1) nl rest i"
      by blast
    have idx: "\<forall>i < length (line # rest). \<not> is_removed ((line # rest) ! i) \<longrightarrow>
        news ! ?k (line # rest) i = ?out cl nl (line # rest) i"
    proof (intro allI impI)
      fix i assume i: "i < length (line # rest)" "\<not> is_removed ((line # rest) ! i)"
      with rem obtain j where j: "i = Suc j" by (cases i) auto
      with i IH(4) have "news ! ?k rest j = ?out (cl + 1) nl rest j" by simp
      with j rem show "news ! ?k (line # rest) i = ?out cl nl (line # rest) i"
        by (simp add: ac_simps)
    qed
    have step: "parsePatch_loop ro n (cl, nl, ol, nwl) (line # rest) =
        parsePatch_loop ro n (cl + 1, nl, ol @ [drop 1 line], nwl) rest"
      using rem by (simp add: is_removed_def Let_def)
    have g1: "parsePatch_loop ro n (cl, nl, ol, nwl) (line # rest) =
        (cl + int (length (line # rest)),
         nl + int (length (filter (\<lambda>l. \<not> is_removed l) (line # rest))),
         ol @ (drop 1 line # olds), nwl @ news)"
      unfolding step IH(1) using rem by simp
    have g2: "drop 1 line # olds = map line_text (filter (\<lambda>l. \<not> is_added l) (line # rest))"
      using rem na IH(2) by (simp add: line_text_def)
    have g3: "length news = length (filter (\<lambda>l. \<not> is_removed l) (line # rest))"
      using rem IH(3) by simp
    from g1 g2 g3 idx show ?thesis
      by (intro exI[of _ "drop 1 line # olds"] exI[of _ news] conjI)
  next
    case add
    define x where "x = show_int nl @ '': '' @ drop 1 line"
    from Cons.IH[of "cl + 1" "nl + 1" ol "nwl @ [x]"]
    obtain olds news where IH:
      "parsePatch_loop ro n (cl + 1, nl + 1, ol, nwl @ [x]) rest =
         (cl + 1 + int (length rest), nl + 1 + int (length (filter (\<lambda>l. \<not> is_removed l) rest)),
          ol @ olds, (nwl @ [x]) @ news)"
      "olds = map line_text (filter (\<lambda>l. \<not> is_added l) rest)"
      "length news = length (filter (\<lambda>l. \<not> is_removed l) rest)"
      "\<forall>i < length rest. \<not> is_removed (rest ! i) \<longrightarrow> news ! ?k rest i = ?out (cl + 1) (nl + 1) rest i"
      by blast
    have idx: "\<forall>i < length (line # rest). \<not> is_removed ((line # rest) ! i) \<longrightarrow>
        (x # news) ! ?k (line # rest) i = ?out cl nl (line # rest) i"
    proof (intro allI impI)
      fix i assume i: "i < length (line # rest)" "\<not> is_removed ((line # rest) ! i)"
      show "(x # news) ! ?k (line # rest) i = ?out cl nl (line # rest) i"
      proof (cases i)
        case 0
        with add show ?thesis by (simp add: x_def numbered_def line_text_def)
      next
        case (Suc j)
        with i IH(4) have "news ! ?k rest j = ?out (cl + 1) (nl + 1) rest j" by simp
        with Suc add show ?thesis by (simp add: ac_simps)
      qed
    qed
    have step: "parsePatch_loop ro n (cl, nl, ol, nwl) (line # rest) =
        parsePatch_loop ro n (cl + 1, nl + 1, ol, nwl @ [x]) rest"
      using add by (simp add: is_removed_def is_added_def x_def Let_def)
    have g1: "parsePatch_loop ro n (cl, nl, ol, nwl) (line # rest) =
        (cl + int (length (line # rest)),
         nl + int (length (filter (\<lambda>l. \<not> is_removed l) (line # rest))),
         ol @ olds, nwl @ (x # news))"
      unfolding step IH(1) using add by simp
    have g2: "olds = map line_text (filter (\<lambda>l. \<not> is_added l) (line # rest))"
      using add IH(2) by simp
    have g3: "length (x # news) = length (filter (\<lambda>l. \<not> is_removed l) (line # rest))"
      using add IH(3) by simp
    from g1 g2 g3 idx show ?thesis
      by (intro exI[of _ olds] exI[of _ "x # news"] conjI)
  next
    case ctx
    define x where "x = (if ro \<or> (cl + 1 > skipStart \<and> cl + 1 \<le> n - skipEnd)
              then show_int nl @ '': '' @ line else line)"
    from Cons.IH[of "cl + 1" "nl + 1" "ol @ [line]" "nwl @ [x]"]
    obtain olds news where IH:
      "parsePatch_loop ro n (cl + 1, nl + 1, ol @ [line], nwl @ [x]) rest =
         (cl + 1 + int (length rest), nl + 1 + int (length (filter (\<lambda>l. \<not> is_removed l) rest)),
          (ol @ [line]) @ olds, (nwl @ [x]) @ news)"
      "olds = map line_text (filter (\<lambda>l. \<not> is_added l) rest)"
      "length news = length (filter (\<lambda>l. \<not> is_removed l) rest)"
      "\<forall>i < length rest. \<not> is_removed (rest ! i) \<longrightarrow> news ! ?k rest i = ?out (cl + 1) (nl + 1) rest i"
      by blast
    have idx: "\<forall>i < length (line # rest). \<not> is_removed ((line # rest) ! i) \<longrightarrow>
        (x # news) ! ?k (line # rest) i = ?out cl nl (line # rest) i"
    proof (intro allI impI)
      fix i assume i: "i < length (line # rest)" "\<not> is_removed ((line # rest) ! i)"
      show "(x # news) ! ?k (line # rest) i = ?out cl nl (line # rest) i"
      proof (cases i)
        case 0
        with ctx show ?thesis by (simp add: x_def numbered_def line_text_def)
      next
        case (Suc j)
        with i IH(4) have "news ! ?k rest j = ?out (cl + 1) (nl + 1) rest j" by simp
        with Suc ctx show ?thesis by (simp add: ac_simps)
      qed
    qed
    have step: "parsePatch_loop ro n (cl, nl, ol, nwl) (line # rest) =
        parsePatch_loop ro n (cl + 1, nl + 1, ol @ [line], nwl @ [x]) rest"
      using ctx by (simp add: is_removed_def is_added_def x_def Let_def)
    have g1: "parsePatch_loop ro n (cl, nl, ol, nwl) (line # rest) =
        (cl + int (length (line # rest)),
         nl + int (length (filter (\<lambda>l. \<not> is_removed l) (line # rest))),
         ol @ (line # olds), nwl @ (x # news))"
      unfolding step IH(1) using ctx by simp
    have g2: "line # olds = map line_text (filter (\<lambda>l. \<not> is_added l) (line # rest))"
      using ctx IH(2) by (simp add: line_text_def)
    have g3: "length (x # news) = length (filter (\<lambda>l. \<not> is_removed l) (line # rest))"
      using ctx IH(3) by simp
    from g1 g2 g3 idx show ?thesis
      by (intro exI[of _ "line # olds"] exI[of _ "x # news"] conjI)
  qed
qed










lemma filter_take_less:
  "i < length ls \<Longrightarrow> P (ls ! i) \<Longrightarrow> length (filter P (take i ls)) < length (filter P ls)"
proof -
  assume i: "i < length ls" and P: "P (ls ! i)"
  have "ls = take i ls @ ls ! i # drop (Suc i) ls" using i by (simp add: id_take_nth_drop)
  then have "filter P ls = filter P (take i ls) @ filter P (ls ! i # drop (Suc i) ls)"
    by (metis filter_append)
  with P show ?thesis by simp
qed

lemma numbered_neq: "numbered x t \<noteq> t"
proof
  assume "numbered x t = t"
  then have "length (numbered x t) = length t" by simp
  then show False by (simp add: numbered_def)
qed

lemma parsePatch_lines_spec:
  assumes hdr: "patchStartEndLine patch = Some (oldHunk, (newStart, newEnd))"
  shows "\<exists>olds news.
     parsePatch_lines patch = Some (olds, news)
   \<and> olds = map line_text (filter (\<lambda>l. \<not> is_added l) (patch_lines patch))
   \<and> length news = length (filter (\<lambda>l. \<not> is_removed l) (patch_lines patch))
   \<and> (\<forall>i < length (patch_lines patch). \<not> is_removed (patch_lines patch ! i) \<longrightarrow>
         news ! length (filter (\<lambda>l. \<not> is_removed l) (take i (patch_lines patch))) =
           (if is_added (patch_lines patch ! i) \<or> \<not> list_ex is_added (patch_lines patch) \<or>
               (skipStart < int i + 1 \<and> int i + 1 \<le> int (length (patch_lines patch)) - skipEnd)
            then numbered (newStart +
                    int (length (filter (\<lambda>l. \<not> is_removed l) (take i (patch_lines patch)))))
                   (line_text (patch_lines patch ! i))
            else patch_lines patch ! i))"
proof -
  define ls where "ls = patch_lines patch"
  define ro where "ro = (\<not> list_ex is_added ls)"
  have ro': "ro = (\<not> list_ex (\<lambda>line. startsWith line ''+'') ls)"
    by (simp add: ro_def is_added_def[abs_def])
  from parsePatch_loop_spec[of ro "int (length ls)" 0 newStart "[]" "[]" ls]
  obtain olds news where L:
    "parsePatch_loop ro (int (length ls)) (0, newStart, [], []) ls =
       (0 + int (length ls), newStart + int (length (filter (\<lambda>l. \<not> is_removed l) ls)),
        [] @ olds, [] @ news)"
    "olds = map line_text (filter (\<lambda>l. \<not> is_added l) ls)"
    "length news = length (filter (\<lambda>l. \<not> is_removed l) ls)"
    "\<forall>i < length ls. \<not> is_removed (ls ! i) \<longrightarrow>
         news ! length (filter (\<lambda>l. \<not> is_removed l) (take i ls)) =
           (if is_added (ls ! i) \<or> ro \<or>
               (skipStart < 0 + int i + 1 \<and> 0 + int i + 1 \<le> int (length ls) - skipEnd)
            then numbered (newStart + int (length (filter (\<lambda>l. \<not> is_removed l) (take i ls))))
                   (line_text (ls ! i))
            else ls ! i)"
    by blast
  have "parsePatch_lines patch = Some (olds, news)"
    using L(1) by (simp add: parsePatch_lines_def hdr ls_def[symmetric] ro'[symmetric])
  with L(2,3,4) show ?thesis
    unfolding ls_def[symmetric] ro_def[symmetric]
    by (intro exI[of _ olds] exI[of _ news]) simp
qed

text \<open>
  Claim C3. Let line \<open>i\<close> of the hunk body (position \<open>i + 1\<close>) be a context line, and let
  \<open>k\<close> be the number of lines before it that go to the new view. Then line \<open>k\<close> of the
  new view is the context line with its new-file number in front if and only if the body
  has no \<^verbatim>\<open>+\<close> line at all, or the position is after the first three and not among the
  last three body lines; otherwise it is the raw context line. So a hunk with a \<^verbatim>\<open>+\<close>
  line leaves the context lines of the skip window unnumbered.
\<close>

theorem parsePatch_numbers_context_lines:
  assumes "patchStartEndLine patch = Some (oldHunk, (newStart, newEnd))"
    and "parsePatch_lines patch = Some (oldHunkLines, newHunkLines)"
    and "i < length (patch_lines patch)"
    and "\<not> is_removed (patch_lines patch ! i)" and "\<not> is_added (patch_lines patch ! i)"
    and "k = length (filter (\<lambda>l. \<not> is_removed l) (take i (patch_lines patch)))"
  shows "k < length newHunkLines
       \<and> (newHunkLines ! k = numbered (newStart + int k) (patch_lines patch ! i))
           = (\<not> list_ex is_added (patch_lines patch)
              \<or> (3 < int i + 1 \<and> int i + 1 \<le> int (length (patch_lines patch)) - 3))
       \<and> (newHunkLines ! k = numbered (newStart + int k) (patch_lines patch ! i)
           \<or> newHunkLines ! k = patch_lines patch ! i)"
proof -
  let ?ls = "patch_lines patch"
  from parsePatch_lines_spec[OF assms(1)] obtain olds news where S:
    "parsePatch_lines patch = Some (olds, news)"
    "length news = length (filter (\<lambda>l. \<not> is_removed l) ?ls)"
    "\<forall>i < length ?ls. \<not> is_removed (?ls ! i) \<longrightarrow>
         news ! length (filter (\<lambda>l. \<not> is_removed l) (take i ?ls)) =
           (if is_added (?ls ! i) \<or> \<not> list_ex is_added ?ls \<or>
               (skipStart < int i + 1 \<and> int i + 1 \<le> int (length ?ls) - skipEnd)
            then numbered (newStart +
                    int (length (filter (\<lambda>l. \<not> is_removed l) (take i ?ls))))
                   (line_text (?ls ! i))
            else ?ls ! i)"
    by blast
  from S(1) assms(2) have eq: "news = newHunkLines" by simp
  have k: "k < length newHunkLines"
    using filter_take_less[of i ?ls "\<lambda>l. \<not> is_removed l"] assms(3,4,6) S(2) eq
    by simp
  have tx: "line_text (?ls ! i) = ?ls ! i"
    using assms(4,5) by (simp add: line_text_def)
  from S(3) assms(3,4) have "news ! length (filter (\<lambda>l. \<not> is_removed l) (take i ?ls)) =
           (if is_added (?ls ! i) \<or> \<not> list_ex is_added ?ls \<or>
               (skipStart < int i + 1 \<and> int i + 1 \<le> int (length ?ls) - skipEnd)
            then numbered (newStart +
                    int (length (filter (\<lambda>l. \<not> is_removed l) (take i ?ls))))
                   (line_text (?ls ! i))
            else ?ls ! i)"
    by blast
  then have v: "newHunkLines ! k =
      (if \<not> list_ex is_added ?ls \<or> (3 < int i + 1 \<and> int i + 1 \<le> int (length ?ls) - 3)
       then numbered (newStart + int k) (?ls ! i)
       else ?ls ! i)"
    unfolding eq assms(6)[symmetric] tx skipStart_def skipEnd_def
    using assms(5) by simp
  show ?thesis
  proof (cases "\<not> list_ex is_added ?ls \<or> (3 < int i + 1 \<and> int i + 1 \<le> int (length ?ls) - 3)")
    case True
    with v have "newHunkLines ! k = numbered (newStart + int k) (?ls ! i)"
      by (simp only: if_True)
    with True k show ?thesis by simp
  next
    case False
    with v have r: "newHunkLines ! k = ?ls ! i" by (simp only: if_False)
    have "?ls ! i \<noteq> numbered (newStart + int k) (?ls ! i)"
      using numbered_neq[of "newStart + int k" "?ls ! i"] by simp
    with r False k show ?thesis by simp
  qed
qed


theorem parsePatch_numbers_context_lines_witness:
  "parsePatch_lines (''@@ -1,8 +1,9 @@'' @ [CHR 0x0A] @ '' a'' @ [CHR 0x0A] @ '' b'' @ [CHR 0x0A]
      @ '' c'' @ [CHR 0x0A] @ '' d'' @ [CHR 0x0A] @ ''+e'' @ [CHR 0x0A] @ '' f'' @ [CHR 0x0A]
      @ '' g'' @ [CHR 0x0A] @ '' h'' @ [CHR 0x0A] @ '' i'')
     = Some (['' a'', '' b'', '' c'', '' d'', '' f'', '' g'', '' h'', '' i''],
             ['' a'', '' b'', '' c'', ''4:  d'', ''5: e'', ''6:  f'', '' g'', '' h'', '' i''])
   \<and> list_ex is_added ['' a'', '' b'', '' c'', '' d'', ''+e'', '' f'', '' g'', '' h'', '' i'']
   \<and> ['' a'', '' b'', '' c'', ''4:  d'', ''5: e'', ''6:  f'', '' g'', '' h'', '' i''] ! 3
       = numbered (1 + 3) '' d''
   \<and> ['' a'', '' b'', '' c'', ''4:  d'', ''5: e'', ''6:  f'', '' g'', '' h'', '' i''] ! 2
       \<noteq> numbered (1 + 2) '' c''"
proof -
  define p where "p = ''@@ -1,8 +1,9 @@'' @ [CHR 0x0A] @ '' a'' @ [CHR 0x0A] @ '' b'' @ [CHR 0x0A]
      @ '' c'' @ [CHR 0x0A] @ '' d'' @ [CHR 0x0A] @ ''+e'' @ [CHR 0x0A] @ '' f'' @ [CHR 0x0A]
      @ '' g'' @ [CHR 0x0A] @ '' h'' @ [CHR 0x0A] @ '' i''"
  let ?news = "['' a'', '' b'', '' c'', ''4:  d'', ''5: e'', ''6:  f'', '' g'', '' h'', '' i'']"
  have h: "patchStartEndLine p = Some ((1, 8), (1, 9))"
    unfolding p_def
    by (simp add: patchStartEndLine_def hunk_header_def is_digit_def parseInt_def digit_val_def)
  have l: "patch_lines p = ['' a'', '' b'', '' c'', '' d'', ''+e'', '' f'', '' g'', '' h'', '' i'']"
    unfolding p_def by (simp add: patch_lines_def)
  have r: "parsePatch_lines p =
      Some (['' a'', '' b'', '' c'', '' d'', '' f'', '' g'', '' h'', '' i''], ?news)"
    by (simp add: parsePatch_lines_def h l skipStart_def skipEnd_def show_int_def show_nat.simps)
  from parsePatch_numbers_context_lines[OF h r, of 3 3]
  have a: "?news ! 3 = numbered (1 + 3) '' d''"
    by (simp add: l is_removed_def is_added_def)
  from parsePatch_numbers_context_lines[OF h r, of 2 2]
  have b: "?news ! 2 \<noteq> numbered (1 + 2) '' c''"
    by (simp add: l is_removed_def is_added_def)
  have c: "list_ex is_added ['' a'', '' b'', '' c'', '' d'', ''+e'', '' f'', '' g'', '' h'', '' i'']"
    by (simp add: is_added_def)
  from r a b c show ?thesis unfolding p_def by (intro conjI)
qed




section \<open>The packer takes the longest prefix that fits\<close>

lemma patchesToPack_loop_spec:
  "patchesToPack_loop g lim (t, n) ps = (t', n') \<Longrightarrow>
   \<exists>k. k \<le> length ps \<and> n' = n + k \<and> t' = t + prefix_cost g k ps \<and>
       (k < length ps \<longrightarrow> t' + cost g (ps ! k) > lim) \<and>
       (\<forall>j. j \<le> k \<longrightarrow> t + prefix_cost g j ps \<le> max t lim)"
proof (induction ps arbitrary: t n)
  case Nil
  then show ?case by (simp add: prefix_cost_def)
next
  case (Cons p ps)
  obtain s e tx where p: "p = (s, e, tx)" by (cases p) auto
  show ?case
  proof (cases "t + g tx > lim")
    case True
    with Cons.prems p have "t' = t" "n' = n" by simp_all
    with True p show ?thesis
      by (intro exI[of _ 0]) (simp add: prefix_cost_def cost_def)
  next
    case False
    with Cons.prems p have "patchesToPack_loop g lim (t + g tx, n + 1) ps = (t', n')"
      by simp
    from Cons.IH[OF this] obtain k where k: "k \<le> length ps" "n' = n + 1 + k"
      "t' = t + g tx + prefix_cost g k ps"
      "k < length ps \<longrightarrow> t' + cost g (ps ! k) > lim"
      "\<forall>j. j \<le> k \<longrightarrow> t + g tx + prefix_cost g j ps \<le> max (t + g tx) lim"
      by auto
    have "\<forall>j. j \<le> Suc k \<longrightarrow> t + prefix_cost g j (p # ps) \<le> max t lim"
    proof (intro allI impI)
      fix j assume j: "j \<le> Suc k"
      show "t + prefix_cost g j (p # ps) \<le> max t lim"
      proof (cases j)
        case 0
        then show ?thesis by (simp add: prefix_cost_def)
      next
        case (Suc j')
        with j k(5) have "t + g tx + prefix_cost g j' ps \<le> max (t + g tx) lim" by simp
        with False Suc p show ?thesis by (simp add: prefix_cost_def cost_def)
      qed
    qed
    with k p show ?thesis
      by (intro exI[of _ "Suc k"]) (simp add: prefix_cost_def cost_def)
  qed
qed

lemma pack_loop_spec:
  "patchesPacked st \<le> n \<Longrightarrow>
   \<exists>ccs. length ccs = min (n - patchesPacked st) (length ps) \<and>
     (\<forall>i < length ccs. ccs ! i = '''' \<or> ccs ! i = getChain (fst (ps ! i)) (fst (snd (ps ! i)))) \<and>
     patchesPacked (pack_loop g lim getChain True n st ps) = min n (patchesPacked st + length ps) \<and>
     ins_patches (pack_loop g lim getChain True n st ps) =
       ins_patches st @ concat (map2 render_section (map (\<lambda>p. snd (snd p)) (take (n - patchesPacked st) ps)) ccs)"
proof (induction ps arbitrary: st)
  case Nil
  then show ?case by simp
next
  case (Cons p ps)
  obtain s e tx where p: "p = (s, e, tx)" by (cases p) auto
  show ?case
  proof (cases "patchesPacked st \<ge> n")
    case True
    with Cons.prems p show ?thesis by simp
  next
    case False
    define c where "c = (if \<not> (tokens st + g (getChain s e) > lim) then getChain s e else '''')"
    define st' where "st' = \<lparr> tokens = (if \<not> (tokens st + g (getChain s e) > lim) then tokens st + g (getChain s e) else tokens st),
        patchesPacked = patchesPacked st + 1, ins_patches = ins_patches st @ render_section tx c \<rparr>"
    have step: "pack_loop g lim getChain True n st (p # ps) = pack_loop g lim getChain True n st' ps"
      using False p by (simp add: Let_def st'_def c_def)
    have le: "patchesPacked st' \<le> n" using False by (simp add: st'_def)
    from Cons.IH[OF le] obtain ccs where ch:
      "length ccs = min (n - patchesPacked st') (length ps)"
      "\<forall>i < length ccs. ccs ! i = '''' \<or> ccs ! i = getChain (fst (ps ! i)) (fst (snd (ps ! i)))"
      "patchesPacked (pack_loop g lim getChain True n st' ps) = min n (patchesPacked st' + length ps)"
      "ins_patches (pack_loop g lim getChain True n st' ps) =
         ins_patches st' @ concat (map2 render_section (map (\<lambda>p. snd (snd p)) (take (n - patchesPacked st') ps)) ccs)"
      by blast
    have n: "n - patchesPacked st = Suc (n - patchesPacked st')"
      using False by (simp add: st'_def)
    have c: "c = '''' \<or> c = getChain s e" by (simp add: c_def)
    have nth: "\<forall>i < length (c # ccs). (c # ccs) ! i = '''' \<or>
        (c # ccs) ! i = getChain (fst ((p # ps) ! i)) (fst (snd ((p # ps) ! i)))"
    proof (intro allI impI)
      fix i assume "i < length (c # ccs)"
      then show "(c # ccs) ! i = '''' \<or>
        (c # ccs) ! i = getChain (fst ((p # ps) ! i)) (fst (snd ((p # ps) ! i)))"
        using ch(2) c p by (cases i) auto
    qed
    have pp: "patchesPacked st' = Suc (patchesPacked st)"
      and ip: "ins_patches st' = ins_patches st @ render_section tx c"
      by (simp_all add: st'_def)
    have g1: "length (c # ccs) = min (n - patchesPacked st) (length (p # ps))"
      using ch(1) n by simp
    have g3: "patchesPacked (pack_loop g lim getChain True n st (p # ps)) =
        min n (patchesPacked st + length (p # ps))"
      using ch(3) by (simp only: step pp) simp
    have g4: "ins_patches (pack_loop g lim getChain True n st (p # ps)) =
        ins_patches st @ concat (map2 render_section
          (map (\<lambda>p. snd (snd p)) (take (n - patchesPacked st) (p # ps))) (c # ccs))"
      using ch(4) by (simp only: step ip n) (simp add: p)
    from g1 nth g3 g4 show ?thesis by blast
  qed
qed

lemma prefix_cost_mono: "i \<le> j \<Longrightarrow> prefix_cost g i ps \<le> prefix_cost g j ps"
proof -
  assume "i \<le> j"
  then have "take j ps = take i ps @ take (j - i) (drop i ps)"
    by (metis le_add_diff_inverse take_add)
  then show ?thesis by (simp add: prefix_cost_def)
qed

lemma prefix_cost_Suc:
  "k < length ps \<Longrightarrow> prefix_cost g (Suc k) ps = prefix_cost g k ps + cost g (ps ! k)"
  by (simp add: prefix_cost_def take_Suc_conv_app_nth)

text \<open>
  Claim C5. With no existing tokens, the packer takes exactly the longest prefix of the units
  whose cumulative cost stays within the budget: the count \<open>k\<close> of packed units is at most
  the number of units, the first \<open>k\<close> units fit together, the unit at position \<open>k\<close> (when
  there is one) would push the running total over the budget, no longer prefix fits, no
  packed unit costs more than the budget alone, and the rendered text is the sections of
  the first \<open>k\<close> units, whole and in their order, each with its comment chain or with none.
\<close>

theorem pack_longest_prefix:
  assumes k: "k = patchesPacked (pack g lim getChain True 0 ins0 patches)"
  shows "k \<le> length patches \<and>
         prefix_cost g k patches \<le> lim \<and>
         (k < length patches \<longrightarrow> lim < prefix_cost g k patches + cost g (patches ! k)) \<and>
         (\<forall>j \<le> length patches. prefix_cost g j patches \<le> lim \<longrightarrow> j \<le> k) \<and>
         (\<forall>i < k. cost g (patches ! i) \<le> lim) \<and>
         (\<exists>ccs. length ccs = k \<and>
            (\<forall>i < k. ccs ! i = '''' \<or>
                      ccs ! i = getChain (fst (patches ! i)) (fst (snd (patches ! i)))) \<and>
            ins_patches (pack g lim getChain True 0 ins0 patches) =
              ins0 @ concat (map2 render_section (map (\<lambda>p. snd (snd p)) (take k patches)) ccs))"
proof -
  obtain t1 n1 where loop1: "patchesToPack_loop g lim (0, 0) patches = (t1, n1)"
    by (cases "patchesToPack_loop g lim (0, 0) patches") auto
  from patchesToPack_loop_spec[OF loop1] obtain m where m:
    "m \<le> length patches" "n1 = m" "t1 = prefix_cost g m patches"
    "m < length patches \<longrightarrow> t1 + cost g (patches ! m) > lim"
    "\<forall>j. j \<le> m \<longrightarrow> prefix_cost g j patches \<le> lim"
    by auto
  define st0 where "st0 = \<lparr> tokens = t1, patchesPacked = 0, ins_patches = ins0 \<rparr>"
  have r: "pack g lim getChain True 0 ins0 patches = pack_loop g lim getChain True m st0 patches"
    by (simp add: pack_def loop1 st0_def m(2))
  have "patchesPacked st0 \<le> m" by (simp add: st0_def)
  from pack_loop_spec[OF this, of patches getChain g lim] obtain ccs where ccs:
    "length ccs = min m (length patches)"
    "\<forall>i < length ccs. ccs ! i = '''' \<or>
        ccs ! i = getChain (fst (patches ! i)) (fst (snd (patches ! i)))"
    "patchesPacked (pack_loop g lim getChain True m st0 patches) = min m (length patches)"
    "ins_patches (pack_loop g lim getChain True m st0 patches) =
       ins0 @ concat (map2 render_section (map (\<lambda>p. snd (snd p)) (take m patches)) ccs)"
    by (auto simp: st0_def)
  have km: "k = m" using k r ccs(3) m(1) by simp
  have c1: "k \<le> length patches" using km m(1) by simp
  have c2: "prefix_cost g k patches \<le> lim" using km m(5) by simp
  have c3: "k < length patches \<longrightarrow> lim < prefix_cost g k patches + cost g (patches ! k)"
    using km m(3,4) by simp
  have c4: "\<forall>j \<le> length patches. prefix_cost g j patches \<le> lim \<longrightarrow> j \<le> k"
  proof (intro allI impI)
    fix j assume j: "j \<le> length patches" "prefix_cost g j patches \<le> lim"
    show "j \<le> k"
    proof (rule ccontr)
      assume "\<not> j \<le> k"
      then have lt: "Suc k \<le> j" "k < length patches" using j(1) by simp_all
      have "lim < prefix_cost g (Suc k) patches"
        using c3 lt(2) by (simp add: prefix_cost_Suc)
      also have "\<dots> \<le> prefix_cost g j patches" by (rule prefix_cost_mono[OF lt(1)])
      finally show False using j(2) by simp
    qed
  qed
  have c5: "\<forall>i < k. cost g (patches ! i) \<le> lim"
  proof (intro allI impI)
    fix i assume i: "i < k"
    then have il: "i < length patches" using c1 by simp
    have "cost g (patches ! i) \<le> prefix_cost g (Suc i) patches"
      by (simp add: prefix_cost_Suc[OF il])
    also have "\<dots> \<le> prefix_cost g k patches"
      using i by (intro prefix_cost_mono) simp
    finally show "cost g (patches ! i) \<le> lim" using c2 by simp
  qed
  have c6: "\<exists>ccs. length ccs = k \<and>
            (\<forall>i < k. ccs ! i = '''' \<or>
                      ccs ! i = getChain (fst (patches ! i)) (fst (snd (patches ! i)))) \<and>
            ins_patches (pack g lim getChain True 0 ins0 patches) =
              ins0 @ concat (map2 render_section (map (\<lambda>p. snd (snd p)) (take k patches)) ccs)"
    using ccs(1,2,4) km m(1) r by (intro exI[of _ ccs]) simp
  from c1 c2 c3 c4 c5 c6 show ?thesis by blast
qed

theorem pack_longest_prefix_witness:
  "patchesPacked (pack length 10 (\<lambda>s e. '''') True 0 ''''
      [(1, 4, ''aaaa''), (10, 12, ''bbbbb''), (20, 21, ''cc'')]) = 2 \<and>
   prefix_cost length 2 [(1, 4, ''aaaa''), (10, 12, ''bbbbb''), (20, 21, ''cc'')] \<le> 10 \<and>
   (2::nat) < length [(1::int, 4::int, ''aaaa''), (10, 12, ''bbbbb''), (20, 21, ''cc'')] \<and>
   10 < prefix_cost length 2 [(1, 4, ''aaaa''), (10, 12, ''bbbbb''), (20, 21, ''cc'')]
        + cost length ([(1, 4, ''aaaa''), (10, 12, ''bbbbb''), (20, 21, ''cc'')] ! 2)"
  using pack_longest_prefix[of 2 length 10 "\<lambda>s e. ''''" "''''"
      "[(1, 4, ''aaaa''), (10, 12, ''bbbbb''), (20, 21, ''cc'')]"]
  by (simp add: pack_def prefix_cost_def cost_def render_section_def)

section \<open>The base of an incremental review\<close>

lemma commenter_getHighestReviewedCommitId_no_match:
  "set commitIds \<inter> set reviewedCommitIds = {} \<Longrightarrow>
   commenter_getHighestReviewedCommitId commitIds reviewedCommitIds = ''''"
proof -
  assume "set commitIds \<inter> set reviewedCommitIds = {}"
  then have "filter (\<lambda>c. c \<in> set reviewedCommitIds) commitIds = []"
    by (auto simp: filter_empty_conv)
  then show ?thesis by (simp add: commenter_getHighestReviewedCommitId_def)
qed

lemma commenter_getHighestReviewedCommitId_match:
  assumes "set commitIds \<inter> set reviewedCommitIds \<noteq> {}"
  shows "commenter_getHighestReviewedCommitId commitIds reviewedCommitIds
           \<in> set commitIds \<inter> set reviewedCommitIds"
proof -
  let ?ms = "filter (\<lambda>c. c \<in> set reviewedCommitIds) commitIds"
  from assms have ne: "?ms \<noteq> []" by (auto simp: filter_empty_conv)
  then obtain m ms where ms: "?ms = m # ms" by (cases ?ms) auto
  have "last ?ms \<in> set ?ms" using ne by (rule last_in_set)
  then have "last ?ms \<in> set commitIds \<inter> set reviewedCommitIds" by auto
  then show ?thesis by (simp add: commenter_getHighestReviewedCommitId_def ms)
qed

text \<open>
  Claim C7, as stated, at a block that is not empty and names one commit that is not on
  the branch: there is no match, so the best match is not the head sha, and the function
  still returns the fallback base sha, which is no commit of the branch.
\<close>

theorem getHighestReviewedCommitId_no_match_counterexample:
  "getHighestReviewedCommitId commenter_getHighestReviewedCommitId (\<lambda>block. [block])
     [''a1'', ''b2''] ''c3'' ''b2'' ''base'' = ''base''
   \<and> ''c3'' \<noteq> ''''
   \<and> [''c3''] \<noteq> []
   \<and> commenter_getHighestReviewedCommitId [''a1'', ''b2''] [''c3''] \<noteq> ''b2''
   \<and> ''base'' \<notin> set [''a1'', ''b2'']"
  by (simp add: getHighestReviewedCommitId_def commenter_getHighestReviewedCommitId_def)

text \<open>
  Claim C7, amended. Whatever the Commenter's method for the best match is, the function
  returns the fallback base sha in three cases: the persisted block is empty; the best
  match is the empty string, which stands for no match; the best match is the head sha.
  In every other case it returns the best match. With the method as the spec gives it,
  no match means that no previously reviewed id is a commit of the branch, and a best
  match that is returned is a previously reviewed commit of the branch.
\<close>

theorem getHighestReviewedCommitId_cases:
  fixes commenterGetHighest getReviewedCommitIds allCommitIds existingCommitIdsBlock headSha
    baseSha
  defines "best \<equiv> commenterGetHighest allCommitIds (getReviewedCommitIds existingCommitIdsBlock)"
  defines "result \<equiv> getHighestReviewedCommitId commenterGetHighest getReviewedCommitIds
                       allCommitIds existingCommitIdsBlock headSha baseSha"
  shows "(existingCommitIdsBlock = '''' \<longrightarrow> result = baseSha)
       \<and> (best = '''' \<longrightarrow> result = baseSha)
       \<and> (best = headSha \<longrightarrow> result = baseSha)
       \<and> (existingCommitIdsBlock \<noteq> '''' \<and> best \<noteq> '''' \<and> best \<noteq> headSha \<longrightarrow> result = best)
       \<and> (commenterGetHighest = commenter_getHighestReviewedCommitId \<longrightarrow>
            (set allCommitIds \<inter> set (getReviewedCommitIds existingCommitIdsBlock) = {}
               \<longrightarrow> result = baseSha)
          \<and> (existingCommitIdsBlock \<noteq> '''' \<and> best \<noteq> '''' \<and> best \<noteq> headSha
               \<longrightarrow> result \<in> set allCommitIds
                             \<inter> set (getReviewedCommitIds existingCommitIdsBlock)))"
proof -
  have a: "existingCommitIdsBlock = '''' \<longrightarrow> result = baseSha"
    by (simp add: result_def getHighestReviewedCommitId_def)
  have b: "best = '''' \<longrightarrow> result = baseSha"
    by (simp add: result_def best_def getHighestReviewedCommitId_def)
  have c: "best = headSha \<longrightarrow> result = baseSha"
    by (simp add: result_def best_def getHighestReviewedCommitId_def)
  have d: "existingCommitIdsBlock \<noteq> '''' \<and> best \<noteq> '''' \<and> best \<noteq> headSha \<longrightarrow> result = best"
    by (simp add: result_def best_def getHighestReviewedCommitId_def)
  have e: "commenterGetHighest = commenter_getHighestReviewedCommitId \<longrightarrow>
            (set allCommitIds \<inter> set (getReviewedCommitIds existingCommitIdsBlock) = {}
               \<longrightarrow> result = baseSha)
          \<and> (existingCommitIdsBlock \<noteq> '''' \<and> best \<noteq> '''' \<and> best \<noteq> headSha
               \<longrightarrow> result \<in> set allCommitIds
                             \<inter> set (getReviewedCommitIds existingCommitIdsBlock))"
  proof (intro impI conjI)
    assume h: "commenterGetHighest = commenter_getHighestReviewedCommitId"
      and "set allCommitIds \<inter> set (getReviewedCommitIds existingCommitIdsBlock) = {}"
    then have "best = ''''"
      by (simp add: best_def commenter_getHighestReviewedCommitId_no_match)
    with b show "result = baseSha" by simp
  next
    assume h: "commenterGetHighest = commenter_getHighestReviewedCommitId"
      and g: "existingCommitIdsBlock \<noteq> '''' \<and> best \<noteq> '''' \<and> best \<noteq> headSha"
    have "set allCommitIds \<inter> set (getReviewedCommitIds existingCommitIdsBlock) \<noteq> {}"
      using g h commenter_getHighestReviewedCommitId_no_match[of allCommitIds
          "getReviewedCommitIds existingCommitIdsBlock"]
      by (auto simp: best_def)
    from commenter_getHighestReviewedCommitId_match[OF this] d g h
    show "result \<in> set allCommitIds \<inter> set (getReviewedCommitIds existingCommitIdsBlock)"
      by (simp add: best_def)
  qed
  from a b c d e show ?thesis by (intro conjI)
qed

theorem getHighestReviewedCommitId_cases_witness:
  "getHighestReviewedCommitId commenter_getHighestReviewedCommitId (\<lambda>block. [block])
     [''a1'', ''b2'', ''c3''] ''b2'' ''c3'' ''base'' = ''b2''
   \<and> ''b2'' \<noteq> ''''
   \<and> commenter_getHighestReviewedCommitId [''a1'', ''b2'', ''c3''] [''b2''] = ''b2''
   \<and> ''b2'' \<noteq> ''c3''
   \<and> getHighestReviewedCommitId commenter_getHighestReviewedCommitId (\<lambda>block. [block])
        [''a1'', ''b2'', ''c3''] '''' ''c3'' ''base'' = ''base''
   \<and> getHighestReviewedCommitId commenter_getHighestReviewedCommitId (\<lambda>block. [block])
        [''a1'', ''b2'', ''c3''] ''c3'' ''c3'' ''base'' = ''base''
   \<and> set [''a1'', ''b2'', ''c3''] \<inter> set [''d4''] = {}
   \<and> getHighestReviewedCommitId commenter_getHighestReviewedCommitId (\<lambda>block. [block])
        [''a1'', ''b2'', ''c3''] ''d4'' ''c3'' ''base'' = ''base''"
  using getHighestReviewedCommitId_cases[where allCommitIds = "[''a1'', ''b2'', ''c3'']"
      and commenterGetHighest = commenter_getHighestReviewedCommitId
      and getReviewedCommitIds = "\<lambda>block. [block]" and existingCommitIdsBlock = "''b2''"
      and headSha = "''c3''" and baseSha = "''base''"]
    getHighestReviewedCommitId_cases[where allCommitIds = "[''a1'', ''b2'', ''c3'']"
      and commenterGetHighest = commenter_getHighestReviewedCommitId
      and getReviewedCommitIds = "\<lambda>block. [block]" and existingCommitIdsBlock = "''''"
      and headSha = "''c3''" and baseSha = "''base''"]
    getHighestReviewedCommitId_cases[where allCommitIds = "[''a1'', ''b2'', ''c3'']"
      and commenterGetHighest = commenter_getHighestReviewedCommitId
      and getReviewedCommitIds = "\<lambda>block. [block]" and existingCommitIdsBlock = "''c3''"
      and headSha = "''c3''" and baseSha = "''base''"]
    getHighestReviewedCommitId_cases[where allCommitIds = "[''a1'', ''b2'', ''c3'']"
      and commenterGetHighest = commenter_getHighestReviewedCommitId
      and getReviewedCommitIds = "\<lambda>block. [block]" and existingCommitIdsBlock = "''d4''"
      and headSha = "''c3''" and baseSha = "''base''"]
  by (simp add: commenter_getHighestReviewedCommitId_def)

section \<open>Reviews and the patches they are anchored to\<close>

lemma overlap_card: "overlap s e p = int (card (lines_of s e \<inter> lines_of (fst p) (fst (snd p))))"
proof -
  have "{s..e} \<inter> {fst p..fst (snd p)} = {max s (fst p)..min e (fst (snd p))}" by auto
  then show ?thesis
    by (simp add: overlap_def intersectionLength_def lines_of_def Let_def)
qed

lemma overlap_nonneg: "0 \<le> overlap s e p"
  by (simp add: overlap_def intersectionLength_def Let_def)

lemma overlap_le: "s \<le> e \<Longrightarrow> overlap s e p \<le> e - s + 1"
  by (simp add: overlap_def intersectionLength_def Let_def)

lemma overlap_reversed: "e < s \<Longrightarrow> overlap s e p = 0"
  by (simp add: overlap_def intersectionLength_def Let_def)

lemma overlap_full_iff:
  "s \<le> e \<Longrightarrow> (overlap s e p = e - s + 1) = (lines_of s e \<subseteq> lines_of (fst p) (fst (snd p)))"
  by (auto simp: overlap_def intersectionLength_def Let_def lines_of_def max_def min_def)

lemma overlap_zero_iff:
  "(overlap s e p = 0) = (lines_of s e \<inter> lines_of (fst p) (fst (snd p)) = {})"
proof -
  have "finite (lines_of s e \<inter> lines_of (fst p) (fst (snd p)))" by (simp add: lines_of_def)
  then show ?thesis by (simp add: overlap_card)
qed

lemma bestPatch_loop_step:
  "bestPatch_loop s e (w, bs, be, mx) (p # ps) =
     (if overlap s e p > mx then
        if overlap s e p = e - s + 1 then (True, fst p, fst (snd p), overlap s e p)
        else bestPatch_loop s e (False, fst p, fst (snd p), overlap s e p) ps
      else if w then (w, bs, be, mx) else bestPatch_loop s e (w, bs, be, mx) ps)"
  by (cases p) (simp add: overlap_def Let_def)

lemma bestPatch_loop_within:
  assumes "\<exists>p \<in> set ps. overlap s e p = e - s + 1" "mx < e - s + 1" "s \<le> e"
  shows "\<exists>bs' be' mx'. bestPatch_loop s e (w, bs, be, mx) ps = (True, bs', be', mx')"
  using assms
proof (induction ps arbitrary: w bs be mx)
  case Nil
  then show ?case by simp
next
  case (Cons p ps)
  show ?case
  proof (cases "overlap s e p = e - s + 1")
    case True
    with Cons.prems(2) show ?thesis by (simp add: bestPatch_loop_step)
  next
    case False
    with Cons.prems(1) have ex: "\<exists>p \<in> set ps. overlap s e p = e - s + 1" by simp
    have lt: "overlap s e p < e - s + 1" using False overlap_le[OF Cons.prems(3), of p] by simp
    show ?thesis
    proof (cases "overlap s e p > mx")
      case True
      from Cons.IH[OF ex lt Cons.prems(3), of False "fst p" "fst (snd p)"] True False
      show ?thesis by (simp add: bestPatch_loop_step)
    next
      case nle: False
      show ?thesis
      proof (cases w)
        case True
        with nle show ?thesis by (simp add: bestPatch_loop_step)
      next
        case False
        from Cons.IH[OF ex Cons.prems(2) Cons.prems(3), of w bs be] nle False
        show ?thesis by (simp add: bestPatch_loop_step)
      qed
    qed
  qed
qed

lemma bestPatch_loop_not_within:
  assumes "\<forall>p \<in> set ps. overlap s e p = e - s + 1 \<longrightarrow> overlap s e p \<le> mx"
  shows "\<exists>bs' be' mx'. bestPatch_loop s e (False, bs, be, mx) ps = (False, bs', be', mx') \<and>
     ((\<forall>p \<in> set ps. overlap s e p \<le> mx) \<and> bs' = bs \<and> be' = be \<and> mx' = mx
      \<or> (\<exists>i < length ps. patch_range (ps ! i) = (bs', be') \<and> mx' = overlap s e (ps ! i)
            \<and> mx < overlap s e (ps ! i)
            \<and> (\<forall>j < length ps. overlap s e (ps ! j) \<le> overlap s e (ps ! i))
            \<and> (\<forall>j < i. overlap s e (ps ! j) < overlap s e (ps ! i))))"
  using assms
proof (induction ps arbitrary: bs be mx)
  case Nil
  then show ?case by simp
next
  case (Cons p ps)
  show ?case
  proof (cases "overlap s e p > mx")
    case True
    with Cons.prems have nf: "overlap s e p \<noteq> e - s + 1" by auto
    have pre: "\<forall>q \<in> set ps. overlap s e q = e - s + 1 \<longrightarrow> overlap s e q \<le> overlap s e p"
      using Cons.prems True by auto
    from Cons.IH[OF pre, of "fst p" "fst (snd p)"] obtain bs' be' mx' where IH:
      "bestPatch_loop s e (False, fst p, fst (snd p), overlap s e p) ps = (False, bs', be', mx')"
      "(\<forall>q \<in> set ps. overlap s e q \<le> overlap s e p) \<and> bs' = fst p \<and> be' = fst (snd p)
          \<and> mx' = overlap s e p
       \<or> (\<exists>i < length ps. patch_range (ps ! i) = (bs', be') \<and> mx' = overlap s e (ps ! i)
            \<and> overlap s e p < overlap s e (ps ! i)
            \<and> (\<forall>j < length ps. overlap s e (ps ! j) \<le> overlap s e (ps ! i))
            \<and> (\<forall>j < i. overlap s e (ps ! j) < overlap s e (ps ! i)))"
      by blast
    have r: "bestPatch_loop s e (False, bs, be, mx) (p # ps) = (False, bs', be', mx')"
      using True nf IH(1) by (simp add: bestPatch_loop_step)
    from IH(2) show ?thesis
    proof
      assume a: "(\<forall>q \<in> set ps. overlap s e q \<le> overlap s e p) \<and> bs' = fst p
          \<and> be' = fst (snd p) \<and> mx' = overlap s e p"
      have "\<forall>j < length (p # ps). overlap s e ((p # ps) ! j) \<le> overlap s e ((p # ps) ! 0)"
      proof (intro allI impI)
        fix j assume "j < length (p # ps)"
        then show "overlap s e ((p # ps) ! j) \<le> overlap s e ((p # ps) ! 0)"
          using a by (cases j) auto
      qed
      with a True r show ?thesis
        by (intro exI[of _ bs'] exI[of _ be'] exI[of _ mx'] conjI disjI2 exI[of _ 0])
           (simp_all add: patch_range_def)
    next
      assume "\<exists>i < length ps. patch_range (ps ! i) = (bs', be') \<and> mx' = overlap s e (ps ! i)
            \<and> overlap s e p < overlap s e (ps ! i)
            \<and> (\<forall>j < length ps. overlap s e (ps ! j) \<le> overlap s e (ps ! i))
            \<and> (\<forall>j < i. overlap s e (ps ! j) < overlap s e (ps ! i))"
      then obtain i where i: "i < length ps" "patch_range (ps ! i) = (bs', be')"
        "mx' = overlap s e (ps ! i)" "overlap s e p < overlap s e (ps ! i)"
        "\<forall>j < length ps. overlap s e (ps ! j) \<le> overlap s e (ps ! i)"
        "\<forall>j < i. overlap s e (ps ! j) < overlap s e (ps ! i)"
        by blast
      have le: "\<forall>j < length (p # ps). overlap s e ((p # ps) ! j) \<le> overlap s e ((p # ps) ! Suc i)"
      proof (intro allI impI)
        fix j assume "j < length (p # ps)"
        then show "overlap s e ((p # ps) ! j) \<le> overlap s e ((p # ps) ! Suc i)"
          using i(4,5) by (cases j) auto
      qed
      have lt: "\<forall>j < Suc i. overlap s e ((p # ps) ! j) < overlap s e ((p # ps) ! Suc i)"
      proof (intro allI impI)
        fix j assume "j < Suc i"
        then show "overlap s e ((p # ps) ! j) < overlap s e ((p # ps) ! Suc i)"
          using i(4,6) by (cases j) auto
      qed
      from r i(1,2,3,4) True le lt show ?thesis
        by (intro exI[of _ bs'] exI[of _ be'] exI[of _ mx'] conjI disjI2 exI[of _ "Suc i"])
           simp_all
    qed
  next
    case False
    have pre: "\<forall>q \<in> set ps. overlap s e q = e - s + 1 \<longrightarrow> overlap s e q \<le> mx"
      using Cons.prems by auto
    from Cons.IH[OF pre, of bs be] obtain bs' be' mx' where IH:
      "bestPatch_loop s e (False, bs, be, mx) ps = (False, bs', be', mx')"
      "(\<forall>q \<in> set ps. overlap s e q \<le> mx) \<and> bs' = bs \<and> be' = be \<and> mx' = mx
       \<or> (\<exists>i < length ps. patch_range (ps ! i) = (bs', be') \<and> mx' = overlap s e (ps ! i)
            \<and> mx < overlap s e (ps ! i)
            \<and> (\<forall>j < length ps. overlap s e (ps ! j) \<le> overlap s e (ps ! i))
            \<and> (\<forall>j < i. overlap s e (ps ! j) < overlap s e (ps ! i)))"
      by blast
    have r: "bestPatch_loop s e (False, bs, be, mx) (p # ps) = (False, bs', be', mx')"
      using False IH(1) by (simp add: bestPatch_loop_step)
    from IH(2) show ?thesis
    proof
      assume "(\<forall>q \<in> set ps. overlap s e q \<le> mx) \<and> bs' = bs \<and> be' = be \<and> mx' = mx"
      with False r show ?thesis by auto
    next
      assume "\<exists>i < length ps. patch_range (ps ! i) = (bs', be') \<and> mx' = overlap s e (ps ! i)
            \<and> mx < overlap s e (ps ! i)
            \<and> (\<forall>j < length ps. overlap s e (ps ! j) \<le> overlap s e (ps ! i))
            \<and> (\<forall>j < i. overlap s e (ps ! j) < overlap s e (ps ! i))"
      then obtain i where i: "i < length ps" "patch_range (ps ! i) = (bs', be')"
        "mx' = overlap s e (ps ! i)" "mx < overlap s e (ps ! i)"
        "\<forall>j < length ps. overlap s e (ps ! j) \<le> overlap s e (ps ! i)"
        "\<forall>j < i. overlap s e (ps ! j) < overlap s e (ps ! i)"
        by blast
      have le: "\<forall>j < length (p # ps). overlap s e ((p # ps) ! j) \<le> overlap s e ((p # ps) ! Suc i)"
      proof (intro allI impI)
        fix j assume "j < length (p # ps)"
        then show "overlap s e ((p # ps) ! j) \<le> overlap s e ((p # ps) ! Suc i)"
          using i(4,5) False by (cases j) auto
      qed
      have lt: "\<forall>j < Suc i. overlap s e ((p # ps) ! j) < overlap s e ((p # ps) ! Suc i)"
      proof (intro allI impI)
        fix j assume "j < Suc i"
        then show "overlap s e ((p # ps) ! j) < overlap s e ((p # ps) ! Suc i)"
          using i(4,6) False by (cases j) auto
      qed
      from r i(1,2,3,4) le lt show ?thesis
        by (intro exI[of _ bs'] exI[of _ be'] exI[of _ mx'] conjI disjI2 exI[of _ "Suc i"])
           simp_all
    qed
  qed
qed


lemma storeReview_idle: "\<not> collecting cur \<Longrightarrow> storeReview patches cur reviews = Inr reviews"
  by (cases cur rule: collecting.cases) (simp_all add: storeReview_def split: option.splits)

lemma storeReview_within:
  assumes "s \<le> e" "\<exists>p \<in> set patches. overlap s e p = e - s + 1"
  shows "storeReview patches (Some s, Some e, c) reviews =
           Inr (reviews @ [\<lparr> startLine = s, endLine = e, comment = c \<rparr>])"
proof -
  have "0 < e - s + 1" using assms(1) by simp
  from bestPatch_loop_within[OF assms(2) this assms(1), of False "- 1" "- 1"]
  obtain bs be mx where "bestPatch_loop s e (False, - 1, - 1, 0) patches = (True, bs, be, mx)"
    by blast
  then show ?thesis by (simp add: storeReview_def)
qed

lemma bestPatch_loop_other:
  assumes "\<not> (s \<le> e \<and> (\<exists>p \<in> set patches. overlap s e p = e - s + 1))"
  shows "\<exists>bs be mx. bestPatch_loop s e (False, - 1, - 1, 0) patches = (False, bs, be, mx) \<and>
     ((\<forall>p \<in> set patches. overlap s e p = 0) \<and> bs = - 1 \<and> be = - 1
      \<or> (\<exists>i < length patches. patch_range (patches ! i) = (bs, be)
            \<and> 0 < overlap s e (patches ! i)
            \<and> (\<forall>j < length patches. overlap s e (patches ! j) \<le> overlap s e (patches ! i))
            \<and> (\<forall>j < i. overlap s e (patches ! j) < overlap s e (patches ! i))))"
proof -
  have pre: "\<forall>p \<in> set patches. overlap s e p = e - s + 1 \<longrightarrow> overlap s e p \<le> 0"
  proof (cases "s \<le> e")
    case True
    with assms show ?thesis by auto
  next
    case False
    then show ?thesis by (simp add: overlap_reversed)
  qed
  from bestPatch_loop_not_within[OF pre, of "- 1" "- 1"] obtain bs be mx where
    r: "bestPatch_loop s e (False, - 1, - 1, 0) patches = (False, bs, be, mx)"
    and d: "(\<forall>p \<in> set patches. overlap s e p \<le> 0) \<and> bs = - 1 \<and> be = - 1 \<and> mx = 0
      \<or> (\<exists>i < length patches. patch_range (patches ! i) = (bs, be) \<and> mx = overlap s e (patches ! i)
            \<and> 0 < overlap s e (patches ! i)
            \<and> (\<forall>j < length patches. overlap s e (patches ! j) \<le> overlap s e (patches ! i))
            \<and> (\<forall>j < i. overlap s e (patches ! j) < overlap s e (patches ! i)))"
    by blast
  have z: "(\<forall>p \<in> set patches. overlap s e p \<le> 0) = (\<forall>p \<in> set patches. overlap s e p = 0)"
    using overlap_nonneg[of s e] by (metis order_antisym order_refl)
  from r d show ?thesis unfolding z by blast
qed

lemma storeReview_no_overlap:
  assumes "\<forall>p \<in> set patches. overlap s e p = 0"
  shows "storeReview patches (Some s, Some e, c) reviews =
     (case patches of
        [] \<Rightarrow> Inl TypeError
      | p # ps \<Rightarrow> Inr (reviews @ [\<lparr> startLine = fst p, endLine = fst (snd p),
                                     comment = note_no_overlap s e @ c \<rparr>]))"
proof -
  have n: "\<not> (s \<le> e \<and> (\<exists>p \<in> set patches. overlap s e p = e - s + 1))"
    using assms by auto
  from bestPatch_loop_other[OF n] assms obtain bs be mx where
    "bestPatch_loop s e (False, - 1, - 1, 0) patches = (False, bs, be, mx)" "bs = - 1" "be = - 1"
    by force
  then show ?thesis
    by (cases patches) (auto simp: storeReview_def split: prod.splits)
qed

lemma storeReview_empty:
  "storeReview [] (Some s, Some e, c) reviews = Inl TypeError"
  by (simp add: storeReview_def)

lemma storeReview_partial:
  assumes n: "\<not> (s \<le> e \<and> (\<exists>p \<in> set patches. overlap s e p = e - s + 1))"
    and ex: "\<exists>p \<in> set patches. 0 < overlap s e p"
    and nonneg: "\<forall>p \<in> set patches. 0 \<le> fst p"
  shows "\<exists>i < length patches.
      storeReview patches (Some s, Some e, c) reviews =
        Inr (reviews @ [\<lparr> startLine = fst (patches ! i), endLine = fst (snd (patches ! i)),
                          comment = note_greatest_overlap s e @ c \<rparr>])
      \<and> 0 < overlap s e (patches ! i)
      \<and> (\<forall>j < length patches. overlap s e (patches ! j) \<le> overlap s e (patches ! i))
      \<and> (\<forall>j < i. overlap s e (patches ! j) < overlap s e (patches ! i))"
proof -
  from bestPatch_loop_other[OF n] ex obtain bs be mx i where
    r: "bestPatch_loop s e (False, - 1, - 1, 0) patches = (False, bs, be, mx)"
    and i: "i < length patches" "patch_range (patches ! i) = (bs, be)"
      "0 < overlap s e (patches ! i)"
      "\<forall>j < length patches. overlap s e (patches ! j) \<le> overlap s e (patches ! i)"
      "\<forall>j < i. overlap s e (patches ! j) < overlap s e (patches ! i)"
    by force
  have bs: "bs = fst (patches ! i)" and be: "be = fst (snd (patches ! i))"
    using i(2) by (simp_all add: patch_range_def)
  have b0: "0 \<le> bs" using nonneg i(1) bs by simp
  have "0 \<le> be" using i(3) b0 unfolding bs be
    by (simp add: overlap_def intersectionLength_def Let_def max_def min_def split: if_splits)
  with b0 have "bs \<noteq> - 1" "be \<noteq> - 1" by simp_all
  with r have "storeReview patches (Some s, Some e, c) reviews =
        Inr (reviews @ [\<lparr> startLine = bs, endLine = be,
                          comment = note_greatest_overlap s e @ c \<rparr>])"
    by (simp add: storeReview_def)
  with i show ?thesis unfolding bs be by blast
qed

lemma storeReview_anchored:
  assumes "patches \<noteq> []"
  shows "\<exists>r. storeReview patches (Some s, Some e, c) reviews = Inr (reviews @ [r])
             \<and> anchored patches r"
proof (cases "s \<le> e \<and> (\<exists>p \<in> set patches. overlap s e p = e - s + 1)")
  case True
  then have "storeReview patches (Some s, Some e, c) reviews =
           Inr (reviews @ [\<lparr> startLine = s, endLine = e, comment = c \<rparr>])"
    by (intro storeReview_within) auto
  moreover have "anchored patches \<lparr> startLine = s, endLine = e, comment = c \<rparr>"
  proof -
    from True obtain p where "p \<in> set patches" "overlap s e p = e - s + 1" by blast
    with True have "lines_of s e \<subseteq> lines_of (fst p) (fst (snd p))"
      by (simp add: overlap_full_iff)
    with True \<open>p \<in> set patches\<close> show ?thesis unfolding anchored_def by auto
  qed
  ultimately show ?thesis by blast
next
  case False
  from assms obtain p0 ps where p0: "patches = p0 # ps" by (cases patches) auto
  from bestPatch_loop_other[OF False] obtain bs be mx where
    r: "bestPatch_loop s e (False, - 1, - 1, 0) patches = (False, bs, be, mx)"
    and d: "bs = - 1 \<and> be = - 1 \<or> (\<exists>i < length patches. patch_range (patches ! i) = (bs, be))"
    by blast
  show ?thesis
  proof (cases "bs \<noteq> - 1 \<and> be \<noteq> - 1")
    case True
    with d obtain i where i: "i < length patches" "patch_range (patches ! i) = (bs, be)" by auto
    have "storeReview patches (Some s, Some e, c) reviews =
        Inr (reviews @ [\<lparr> startLine = bs, endLine = be,
                          comment = note_greatest_overlap s e @ c \<rparr>])"
      using r True by (simp add: storeReview_def)
    moreover have "anchored patches \<lparr> startLine = bs, endLine = be,
                          comment = note_greatest_overlap s e @ c \<rparr>"
    proof -
      have "patches ! i \<in> set patches" using i(1) by simp
      moreover have "(bs, be) = patch_range (patches ! i)" using i(2) by simp
      ultimately show ?thesis unfolding anchored_def by auto
    qed
    ultimately show ?thesis by blast
  next
    case False
    have "storeReview patches (Some s, Some e, c) reviews =
        Inr (reviews @ [\<lparr> startLine = fst p0, endLine = fst (snd p0),
                          comment = note_no_overlap s e @ c \<rparr>])"
      using r False p0 by (auto simp: storeReview_def split: prod.splits)
    moreover have "anchored patches \<lparr> startLine = fst p0, endLine = fst (snd p0),
                          comment = note_no_overlap s e @ c \<rparr>"
      using p0 by (auto simp: anchored_def patch_range_def)
    ultimately show ?thesis by blast
  qed
qed

lemma storeReview_total:
  assumes "patches \<noteq> []" "\<forall>r \<in> set reviews. anchored patches r"
  shows "\<exists>rs. storeReview patches cur reviews = Inr rs \<and> (\<forall>r \<in> set rs. anchored patches r)"
proof (cases "collecting cur")
  case True
  then obtain s e c where cur: "cur = (Some s, Some e, c)"
    by (cases cur rule: collecting.cases) auto
  from storeReview_anchored[OF assms(1), of s e c reviews] assms(2) show ?thesis
    unfolding cur by auto
next
  case False
  with assms(2) show ?thesis by (simp add: storeReview_idle)
qed

lemma parseReview_loop_anchored:
  assumes "patches \<noteq> []" "\<forall>r \<in> set reviews. anchored patches r"
  shows "\<exists>rs. parseReview_loop patches cur reviews lines = Inr rs
              \<and> (\<forall>r \<in> set rs. anchored patches r)"
  using assms(2)
proof (induction lines arbitrary: cur reviews)
  case Nil
  with storeReview_total[OF assms(1)] show ?case by simp
next
  case (Cons line rest)
  from storeReview_total[OF assms(1) Cons.prems, of cur] obtain rs where
    rs: "storeReview patches cur reviews = Inr rs" "\<forall>r \<in> set rs. anchored patches r"
    by blast
  show ?case
  proof (cases "lineNumberRangeMatch line")
    case (Some groups)
    with rs(1) Cons.IH[OF rs(2)] show ?thesis by simp
  next
    case None
    show ?thesis
    proof (cases "trim line = commentSeparator")
      case True
      with None rs(1) Cons.IH[OF rs(2)] show ?thesis by simp
    next
      case False
      show ?thesis
      proof (cases "collecting cur")
        case True
        then obtain s e c where cur: "cur = (Some s, Some e, c)"
          by (cases cur rule: collecting.cases) auto
        with None False Cons.IH[OF Cons.prems] show ?thesis by simp
      next
        case nc: False
        then have "parseReview_loop patches cur reviews (line # rest) =
            parseReview_loop patches cur reviews rest"
          using None False
          by (cases cur rule: collecting.cases) (simp_all split: option.splits)
        with Cons.IH[OF Cons.prems] show ?thesis by simp
      qed
    qed
  qed
qed

lemma parseReview_loop_empty:
  "parseReview_loop [] cur reviews lines =
     (if collecting cur \<or> list_ex (\<lambda>line. lineNumberRangeMatch line \<noteq> None) lines
      then Inl TypeError else Inr reviews)"
proof (induction lines arbitrary: cur reviews)
  case Nil
  show ?case
  proof (cases "collecting cur")
    case True
    then obtain s e c where cur: "cur = (Some s, Some e, c)"
      by (cases cur rule: collecting.cases) auto
    then show ?thesis by (simp add: storeReview_empty)
  next
    case False
    then show ?thesis by (simp add: storeReview_idle)
  qed
next
  case (Cons line rest)
  show ?case
  proof (cases "collecting cur")
    case True
    then obtain s e c where cur: "cur = (Some s, Some e, c)"
      by (cases cur rule: collecting.cases) auto
    show ?thesis
      unfolding cur using Cons.IH[of "(Some s, Some e, c @ line @ [CHR 0x0A])" reviews]
      by (auto simp: storeReview_empty split: option.splits)
  next
    case False
    then have st: "storeReview [] cur reviews = Inr reviews" by (simp add: storeReview_idle)
    have skip: "parseReview_loop [] cur reviews (line # rest) = parseReview_loop [] cur reviews rest"
      if "lineNumberRangeMatch line = None" "trim line \<noteq> commentSeparator"
      using that False by (cases cur rule: collecting.cases) (simp_all split: option.splits)
    show ?thesis
    proof (cases "lineNumberRangeMatch line")
      case (Some groups)
      with st False Cons.IH[of "(Some (parseInt (groups ! 0)), Some (parseInt (groups ! 1)), [])"
          reviews]
      show ?thesis by simp
    next
      case None
      show ?thesis
      proof (cases "trim line = commentSeparator")
        case True
        with None st False Cons.IH[of "(None, None, [])" reviews] show ?thesis by simp
      next
        case nsep: False
        from skip[OF None nsep] None False Cons.IH[of cur reviews] show ?thesis by simp
      qed
    qed
  qed
qed

text \<open>
  Claim C1, as stated, at the response \<^verbatim>\<open>2-3:\<close>, \<^verbatim>\<open>Looks fine\<close>, \<^verbatim>\<open>---\<close> and the one patch of
  lines 1 to 4: the comment is within the patch and is returned with its own range
  \<open>(2, 3)\<close>, which is not the range \<open>(1, 4)\<close> of the patch.
\<close>

theorem parseReview_contained_counterexample:
  "parseReview (''2-3:'' @ [CHR 0x0A] @ ''Looks fine'' @ [CHR 0x0A] @ ''---'') [(1, 4, ''hunk'')]
     = Inr [\<lparr> startLine = 2, endLine = 3, comment = ''Looks fine'' @ [CHR 0x0A] \<rparr>]
   \<and> (2::int, 3::int) \<noteq> patch_range (1, 4, ''hunk'')"
  by code_simp

text \<open>
  Claim C1, amended. For every response and every non-empty list of patches,
  \<^verbatim>\<open>parseReview\<close> returns, and the range of every review it returns either equals the
  range of a patch of the list (a moved comment), or is a range \<open>start \<le> end\<close> that lies
  within the lines of a patch of the list (a comment that is kept as the response gave it).
\<close>

theorem parseReview_anchored:
  assumes "patches \<noteq> []"
  shows "\<exists>reviews. parseReview response patches = Inr reviews
                 \<and> (\<forall>r \<in> set reviews. anchored patches r)"
  unfolding parseReview_def
  using parseReview_loop_anchored[OF assms, of "[]" "(None, None, [])" "response_lines response"]
  by simp

theorem parseReview_anchored_witness:
  "[(1::int, 4::int, ''hunk'')] \<noteq> []
   \<and> parseReview (''2-3:'' @ [CHR 0x0A] @ ''fine'' @ [CHR 0x0A] @ ''---'' @ [CHR 0x0A]
        @ ''3-9:'' @ [CHR 0x0A] @ ''far'') [(1, 4, ''hunk'')]
     = Inr [\<lparr> startLine = 2, endLine = 3, comment = ''fine'' @ [CHR 0x0A] \<rparr>,
            \<lparr> startLine = 1, endLine = 4,
              comment = note_greatest_overlap 3 9 @ ''far'' @ [CHR 0x0A] \<rparr>]
   \<and> anchored [(1, 4, ''hunk'')] \<lparr> startLine = 2, endLine = 3, comment = ''fine'' @ [CHR 0x0A] \<rparr>
   \<and> anchored [(1, 4, ''hunk'')]
        \<lparr> startLine = 1, endLine = 4, comment = note_greatest_overlap 3 9 @ ''far'' @ [CHR 0x0A] \<rparr>"
proof -
  define response where "response = ''2-3:'' @ [CHR 0x0A] @ ''fine'' @ [CHR 0x0A] @ ''---''
        @ [CHR 0x0A] @ ''3-9:'' @ [CHR 0x0A] @ ''far''"
  define patches :: "patch list" where "patches = [(1, 4, ''hunk'')]"
  have ne: "patches \<noteq> []" by (simp add: patches_def)
  have ev: "parseReview response patches
     = Inr [\<lparr> startLine = 2, endLine = 3, comment = ''fine'' @ [CHR 0x0A] \<rparr>,
            \<lparr> startLine = 1, endLine = 4,
              comment = note_greatest_overlap 3 9 @ ''far'' @ [CHR 0x0A] \<rparr>]"
    unfolding response_def patches_def by code_simp
  from parseReview_anchored[OF ne, of response] ev
  have "anchored patches \<lparr> startLine = 2, endLine = 3, comment = ''fine'' @ [CHR 0x0A] \<rparr>"
    and "anchored patches
        \<lparr> startLine = 1, endLine = 4, comment = note_greatest_overlap 3 9 @ ''far'' @ [CHR 0x0A] \<rparr>"
    by simp_all
  with ne ev show ?thesis unfolding response_def patches_def by (intro conjI)
qed

text \<open>
  Claim C2, as stated, at the response line \<^verbatim>\<open>5-4:\<close> and the one patch of lines 1 to 10:
  both line numbers are inside the patch, no line of the range is outside it, and the
  intersection length equals the length \<open>end - start + 1\<close> of the range; yet the comment
  is not returned with its range unchanged. It is moved to the patch, under the note that
  no patch overlaps it.
\<close>

theorem storeReview_reversed_range_counterexample:
  "parseReview (''5-4:'' @ [CHR 0x0A] @ ''body'') [(1, 10, ''hunk'')]
     = Inr [\<lparr> startLine = 1, endLine = 10,
              comment = note_no_overlap 5 4 @ ''body'' @ [CHR 0x0A] \<rparr>]
   \<and> (1::int) \<le> 5 \<and> (5::int) \<le> 10 \<and> (1::int) \<le> 4 \<and> (4::int) \<le> 10
   \<and> lines_of 5 4 \<subseteq> lines_of 1 10
   \<and> intersectionLength 5 4 1 10 = 4 - 5 + 1
   \<and> (1::int, 10::int) \<noteq> (5, 4)"
  by code_simp

text \<open>
  Claim C2, amended. Let the list of patches be non-empty, with start lines that are not
  negative (they are parsed from hunk headers), and let a comment with range
  \<open>(s, e)\<close> be flushed. If \<open>s \<le> e\<close> and the lines \<open>s..e\<close> all lie in some patch, the
  comment is pushed with its range and text unchanged. If no patch holds all of the lines
  but some patch shares a line with them, the comment gets the range of the first patch of
  greatest overlap, and its text gets the note on the greatest overlap, which cites
  \<open>s\<close> and \<open>e\<close>, in front. If no patch shares a line with them, the comment gets the range
  of the first patch and the note that no patch overlaps. In every case exactly one review
  is pushed: no comment is dropped.
\<close>

theorem storeReview_cases:
  assumes "patches \<noteq> []" and "\<forall>p \<in> set patches. 0 \<le> fst p"
  shows "(s \<le> e \<and> (\<exists>p \<in> set patches. lines_of s e \<subseteq> lines_of (fst p) (fst (snd p)))
          \<longrightarrow> storeReview patches (Some s, Some e, c) reviews =
                Inr (reviews @ [\<lparr> startLine = s, endLine = e, comment = c \<rparr>]))
       \<and> ((\<forall>p \<in> set patches. \<not> lines_of s e \<subseteq> lines_of (fst p) (fst (snd p)))
           \<and> (\<exists>p \<in> set patches. lines_of s e \<inter> lines_of (fst p) (fst (snd p)) \<noteq> {})
          \<longrightarrow> (\<exists>i < length patches.
                 storeReview patches (Some s, Some e, c) reviews =
                   Inr (reviews @ [\<lparr> startLine = fst (patches ! i),
                                     endLine = fst (snd (patches ! i)),
                                     comment = note_greatest_overlap s e @ c \<rparr>])
                 \<and> (\<forall>j < length patches. overlap s e (patches ! j) \<le> overlap s e (patches ! i))
                 \<and> (\<forall>j < i. overlap s e (patches ! j) < overlap s e (patches ! i))))
       \<and> ((\<forall>p \<in> set patches. lines_of s e \<inter> lines_of (fst p) (fst (snd p)) = {})
          \<longrightarrow> storeReview patches (Some s, Some e, c) reviews =
                Inr (reviews @ [\<lparr> startLine = fst (hd patches), endLine = fst (snd (hd patches)),
                                  comment = note_no_overlap s e @ c \<rparr>]))
       \<and> (\<exists>r. storeReview patches (Some s, Some e, c) reviews = Inr (reviews @ [r]))"
proof -
  have a: "s \<le> e \<and> (\<exists>p \<in> set patches. lines_of s e \<subseteq> lines_of (fst p) (fst (snd p)))
          \<longrightarrow> storeReview patches (Some s, Some e, c) reviews =
                Inr (reviews @ [\<lparr> startLine = s, endLine = e, comment = c \<rparr>])"
  proof
    assume h: "s \<le> e \<and> (\<exists>p \<in> set patches. lines_of s e \<subseteq> lines_of (fst p) (fst (snd p)))"
    then have "\<exists>p \<in> set patches. overlap s e p = e - s + 1"
      by (simp add: overlap_full_iff)
    with h show "storeReview patches (Some s, Some e, c) reviews =
                Inr (reviews @ [\<lparr> startLine = s, endLine = e, comment = c \<rparr>])"
      by (intro storeReview_within) auto
  qed
  have b: "(\<forall>p \<in> set patches. \<not> lines_of s e \<subseteq> lines_of (fst p) (fst (snd p)))
           \<and> (\<exists>p \<in> set patches. lines_of s e \<inter> lines_of (fst p) (fst (snd p)) \<noteq> {})
          \<longrightarrow> (\<exists>i < length patches.
                 storeReview patches (Some s, Some e, c) reviews =
                   Inr (reviews @ [\<lparr> startLine = fst (patches ! i),
                                     endLine = fst (snd (patches ! i)),
                                     comment = note_greatest_overlap s e @ c \<rparr>])
                 \<and> (\<forall>j < length patches. overlap s e (patches ! j) \<le> overlap s e (patches ! i))
                 \<and> (\<forall>j < i. overlap s e (patches ! j) < overlap s e (patches ! i)))"
  proof
    assume h: "(\<forall>p \<in> set patches. \<not> lines_of s e \<subseteq> lines_of (fst p) (fst (snd p)))
           \<and> (\<exists>p \<in> set patches. lines_of s e \<inter> lines_of (fst p) (fst (snd p)) \<noteq> {})"
    then have n: "\<not> (s \<le> e \<and> (\<exists>p \<in> set patches. overlap s e p = e - s + 1))"
      by (auto simp: overlap_full_iff)
    from h obtain p where "p \<in> set patches" "overlap s e p \<noteq> 0"
      by (auto simp: overlap_zero_iff)
    then have ex: "\<exists>p \<in> set patches. 0 < overlap s e p"
      using overlap_nonneg[of s e p] by (intro bexI[of _ p]) simp_all
    from storeReview_partial[OF n ex assms(2), of c reviews]
    show "\<exists>i < length patches.
                 storeReview patches (Some s, Some e, c) reviews =
                   Inr (reviews @ [\<lparr> startLine = fst (patches ! i),
                                     endLine = fst (snd (patches ! i)),
                                     comment = note_greatest_overlap s e @ c \<rparr>])
                 \<and> (\<forall>j < length patches. overlap s e (patches ! j) \<le> overlap s e (patches ! i))
                 \<and> (\<forall>j < i. overlap s e (patches ! j) < overlap s e (patches ! i))"
      by blast
  qed
  have c: "(\<forall>p \<in> set patches. lines_of s e \<inter> lines_of (fst p) (fst (snd p)) = {})
          \<longrightarrow> storeReview patches (Some s, Some e, c) reviews =
                Inr (reviews @ [\<lparr> startLine = fst (hd patches), endLine = fst (snd (hd patches)),
                                  comment = note_no_overlap s e @ c \<rparr>])"
  proof
    assume "\<forall>p \<in> set patches. lines_of s e \<inter> lines_of (fst p) (fst (snd p)) = {}"
    then have "\<forall>p \<in> set patches. overlap s e p = 0" by (simp add: overlap_zero_iff)
    from storeReview_no_overlap[OF this, of c reviews] assms(1)
    show "storeReview patches (Some s, Some e, c) reviews =
                Inr (reviews @ [\<lparr> startLine = fst (hd patches), endLine = fst (snd (hd patches)),
                                  comment = note_no_overlap s e @ c \<rparr>])"
      by (cases patches) simp_all
  qed
  have d: "\<exists>r. storeReview patches (Some s, Some e, c) reviews = Inr (reviews @ [r])"
    using storeReview_anchored[OF assms(1), of s e c reviews] by blast
  from a b c d show ?thesis by blast
qed

theorem storeReview_cases_witness:
  "storeReview [(10, 12, ''c''), (1, 4, ''a''), (5, 9, ''b'')] (Some 2, Some 3, ''x'') []
     = Inr [\<lparr> startLine = 2, endLine = 3, comment = ''x'' \<rparr>]
   \<and> (\<exists>i < length [(10::int, 12::int, ''c''), (1, 4, ''a''), (5, 9, ''b'')].
          storeReview [(10, 12, ''c''), (1, 4, ''a''), (5, 9, ''b'')]
                  (Some 2, Some 7, ''x'') []
        = Inr [\<lparr> startLine = fst ([(10::int, 12::int, ''c''), (1, 4, ''a''), (5, 9, ''b'')] ! i),
                 endLine = fst (snd ([(10::int, 12::int, ''c''), (1, 4, ''a''), (5, 9, ''b'')] ! i)),
                 comment = note_greatest_overlap 2 7 @ ''x'' \<rparr>])
   \<and> storeReview [(10, 12, ''c''), (1, 4, ''a''), (5, 9, ''b'')] (Some 20, Some 30, ''x'') []
     = Inr [\<lparr> startLine = 10, endLine = 12, comment = note_no_overlap 20 30 @ ''x'' \<rparr>]"
proof -
  define patches :: "patch list" where "patches = [(10, 12, ''c''), (1, 4, ''a''), (5, 9, ''b'')]"
  have ne: "patches \<noteq> []" and nonneg: "\<forall>p \<in> set patches. 0 \<le> fst p"
    by (simp_all add: patches_def)
  have a: "storeReview patches (Some 2, Some 3, ''x'') []
     = Inr [\<lparr> startLine = 2, endLine = 3, comment = ''x'' \<rparr>]"
    using storeReview_cases[OF ne nonneg, of 2 3 "''x''" "[]"]
    by (simp add: patches_def lines_of_def)
  have hb: "(\<forall>p \<in> set patches. \<not> lines_of 2 7 \<subseteq> lines_of (fst p) (fst (snd p)))
      \<and> (\<exists>p \<in> set patches. lines_of 2 7 \<inter> lines_of (fst p) (fst (snd p)) \<noteq> {})"
    by (simp add: patches_def lines_of_def)
  from storeReview_cases[OF ne nonneg, of 2 7 "''x''" "[]"] hb
  have b: "\<exists>i < length patches. storeReview patches (Some 2, Some 7, ''x'') []
        = Inr [\<lparr> startLine = fst (patches ! i), endLine = fst (snd (patches ! i)),
                 comment = note_greatest_overlap 2 7 @ ''x'' \<rparr>]"
    by auto
  have c: "storeReview patches (Some 20, Some 30, ''x'') []
     = Inr [\<lparr> startLine = 10, endLine = 12, comment = note_no_overlap 20 30 @ ''x'' \<rparr>]"
    using storeReview_cases[OF ne nonneg, of 20 30 "''x''" "[]"]
    by (simp add: patches_def lines_of_def)
  from a b c show ?thesis unfolding patches_def by (intro conjI)
qed

text \<open>
  Claim C9. \<^verbatim>\<open>parseReview\<close> returns exactly when the list of patches is not empty or no
  line of the response opens a range. With an empty list, every flush of a comment takes
  the branch without overlap and reads element 0 of the empty list, and a response with a
  line that opens a range makes \<^verbatim>\<open>parseReview\<close> throw; with a non-empty list every flush
  pushes one review.
\<close>

theorem parseReview_total_iff:
  "(\<exists>reviews. parseReview response patches = Inr reviews)
     = (patches \<noteq> [] \<or> \<not> list_ex (\<lambda>line. lineNumberRangeMatch line \<noteq> None)
                               (response_lines response))
   \<and> (patches = [] \<and> list_ex (\<lambda>line. lineNumberRangeMatch line \<noteq> None) (response_lines response)
        \<longrightarrow> parseReview response patches = Inl TypeError)
   \<and> storeReview [] (Some s, Some e, c) reviews = Inl TypeError
   \<and> (patches \<noteq> [] \<longrightarrow> (\<exists>r. storeReview patches (Some s, Some e, c) reviews = Inr (reviews @ [r])))"
proof -
  have a: "(\<exists>reviews. parseReview response patches = Inr reviews)
     = (patches \<noteq> [] \<or> \<not> list_ex (\<lambda>line. lineNumberRangeMatch line \<noteq> None)
                               (response_lines response))"
  proof (cases "patches = []")
    case True
    then show ?thesis by (simp add: parseReview_def parseReview_loop_empty)
  next
    case False
    from parseReview_loop_anchored[OF False, of "[]" "(None, None, [])" "response_lines response"]
    obtain rs where "parseReview response patches = Inr rs"
      by (auto simp: parseReview_def)
    with False show ?thesis by blast
  qed
  have b: "patches = [] \<and> list_ex (\<lambda>line. lineNumberRangeMatch line \<noteq> None) (response_lines response)
        \<longrightarrow> parseReview response patches = Inl TypeError"
    by (simp add: parseReview_def parseReview_loop_empty)
  have c: "storeReview [] (Some s, Some e, c) reviews = Inl TypeError"
    by (rule storeReview_empty)
  have d: "patches \<noteq> [] \<longrightarrow>
      (\<exists>r. storeReview patches (Some s, Some e, c) reviews = Inr (reviews @ [r]))"
    using storeReview_anchored[of patches s e c reviews] by blast
  from a b c d show ?thesis by blast
qed

theorem parseReview_total_iff_witness:
  "list_ex (\<lambda>line. lineNumberRangeMatch line \<noteq> None) (response_lines (''1-2:'' @ [CHR 0x0A] @ ''x''))
   \<and> parseReview (''1-2:'' @ [CHR 0x0A] @ ''x'') [] = Inl TypeError
   \<and> \<not> list_ex (\<lambda>line. lineNumberRangeMatch line \<noteq> None) (response_lines ''no range here'')
   \<and> parseReview ''no range here'' [] = Inr []
   \<and> [(1::int, 2::int, ''hunk'')] \<noteq> []
   \<and> (\<exists>reviews. parseReview (''1-2:'' @ [CHR 0x0A] @ ''x'') [(1, 2, ''hunk'')] = Inr reviews)"
proof -
  have a: "list_ex (\<lambda>line. lineNumberRangeMatch line \<noteq> None)
             (response_lines (''1-2:'' @ [CHR 0x0A] @ ''x''))"
    by code_simp
  have b: "\<not> list_ex (\<lambda>line. lineNumberRangeMatch line \<noteq> None) (response_lines ''no range here'')"
    by code_simp
  have c: "parseReview (''1-2:'' @ [CHR 0x0A] @ ''x'') [] = Inl TypeError"
    using parseReview_total_iff[of "''1-2:'' @ [CHR 0x0A] @ ''x''" "[]" 0 0 "[]" "[]"] a
    by blast
  have d: "\<exists>reviews. parseReview ''no range here'' [] = Inr reviews"
    using parseReview_total_iff[of "''no range here''" "[]" 0 0 "[]" "[]"] b by blast
  have d': "parseReview ''no range here'' [] = Inr []" by code_simp
  have e: "\<exists>reviews. parseReview (''1-2:'' @ [CHR 0x0A] @ ''x'') [(1, 2, ''hunk'')] = Inr reviews"
    using parseReview_total_iff[of "''1-2:'' @ [CHR 0x0A] @ ''x''" "[(1, 2, ''hunk'')]" 0 0 "[]" "[]"]
    by blast
  from a b c d d' e show ?thesis by simp
qed

section \<open>The line scan of the response\<close>

lemma digit_not_space: "is_digit c \<Longrightarrow> \<not> is_space c"
  by (auto simp: is_digit_def is_space_def)

lemma takeWhile_all: "list_all P xs \<Longrightarrow> \<not> P y \<Longrightarrow> takeWhile P (xs @ y # ys) = xs"
  by (induction xs) auto

lemma dropWhile_all: "list_all P xs \<Longrightarrow> \<not> P y \<Longrightarrow> dropWhile P (xs @ y # ys) = y # ys"
  by (induction xs) auto

lemma list_all_takeWhile: "list_all P (takeWhile P xs)"
  by (induction xs) auto

lemma match_lineNumberRange_core:
  assumes "d1 \<noteq> []" "list_all is_digit d1" "d2 \<noteq> []" "list_all is_digit d2" "list_all is_space ws"
  shows "match_seq lineNumberRange (d1 @ ''-'' @ d2 @ '':'' @ ws) = Some ([d1, d2], [])"
proof -
  have nd: "\<not> is_digit CHR ''-''" "\<not> is_digit CHR '':''" by (simp_all add: is_digit_def)
  show ?thesis
    using assms
    by (simp add: lineNumberRange_def takeWhile_all dropWhile_all nd)
qed

lemma match_lineNumberRange_form:
  assumes "match_seq lineNumberRange s = Some (g, r)"
  shows "\<exists>d1 d2 ws. g = [d1, d2] \<and> r = [] \<and> s = d1 @ ''-'' @ d2 @ '':'' @ ws
           \<and> d1 \<noteq> [] \<and> list_all is_digit d1 \<and> d2 \<noteq> [] \<and> list_all is_digit d2
           \<and> list_all is_space ws"
proof -
  define d1 where "d1 = takeWhile is_digit s"
  define s1 where "s1 = dropWhile is_digit s"
  from assms have d1: "d1 \<noteq> []"
    by (auto simp: lineNumberRange_def d1_def split: if_splits)
  from assms obtain g1 where m1: "match_seq [Lit ''-'', Digits, Lit '':'', WsEnd] s1 = Some (g1, r)"
    and g: "g = d1 # g1"
    by (auto simp: lineNumberRange_def d1_def s1_def split: if_splits option.splits)
  from m1 obtain s2 where s1: "s1 = CHR ''-'' # s2"
    by (cases s1) (auto split: if_splits)
  define d2 where "d2 = takeWhile is_digit s2"
  define s3 where "s3 = dropWhile is_digit s2"
  from m1 have d2: "d2 \<noteq> []"
    by (auto simp: s1 d2_def split: if_splits)
  from m1 obtain g2 where m2: "match_seq [Lit '':'', WsEnd] s3 = Some (g2, r)"
    and g1: "g1 = d2 # g2"
    by (auto simp: s1 d2_def s3_def split: if_splits option.splits)
  from m2 obtain ws where s3: "s3 = CHR '':'' # ws"
    by (cases s3) (auto split: if_splits)
  from m2 have ws: "list_all is_space ws" and g2: "g2 = []" and r: "r = []"
    by (auto simp: s3 split: if_splits)
  have "s = d1 @ s1" by (simp add: d1_def s1_def)
  also have "s1 = ''-'' @ d2 @ s3" by (simp add: s1 d2_def s3_def)
  finally have "s = d1 @ ''-'' @ d2 @ '':'' @ ws" by (simp add: s3)
  moreover have "list_all is_digit d1" "list_all is_digit d2"
    by (simp_all add: d1_def d2_def list_all_takeWhile)
  ultimately show ?thesis using d1 d2 ws g g1 g2 r by blast
qed

lemma match_lineNumberRange_after_space:
  assumes "pre \<noteq> []" "is_space (last pre)"
    and "d1 \<noteq> []" "list_all is_digit d1"
  shows "match_seq lineNumberRange (pre @ d1 @ rest) = None"
proof (rule ccontr)
  assume "match_seq lineNumberRange (pre @ d1 @ rest) \<noteq> None"
  then obtain g r where "match_seq lineNumberRange (pre @ d1 @ rest) = Some (g, r)" by auto
  from match_lineNumberRange_form[OF this] obtain e1 e2 ws where
    eq: "pre @ d1 @ rest = e1 @ ''-'' @ e2 @ '':'' @ ws"
    and e: "list_all is_digit e1" "list_all is_digit e2" "list_all is_space ws"
    by blast
  define X where "X = e1 @ ''-'' @ e2 @ '':''"
  have X: "\<forall>c \<in> set X. \<not> is_space c"
    using e(1,2) digit_not_space by (auto simp: X_def list_all_iff is_space_def)
  from eq have "pre @ (d1 @ rest) = X @ ws" by (simp add: X_def)
  then obtain us where "pre = X @ us \<and> us @ (d1 @ rest) = ws \<or> pre @ us = X \<and> d1 @ rest = us @ ws"
    by (auto simp: append_eq_append_conv2)
  then show False
  proof
    assume a: "pre = X @ us \<and> us @ (d1 @ rest) = ws"
    from assms(3) have "hd d1 \<in> set ws" using a by (cases d1) auto
    then have "is_space (hd d1)" using e(3) by (simp add: list_all_iff)
    moreover have "is_digit (hd d1)" using assms(3,4) by (cases d1) auto
    ultimately show False using digit_not_space by blast
  next
    assume a: "pre @ us = X \<and> d1 @ rest = us @ ws"
    have "last pre \<in> set X" using a assms(1) by (metis last_in_set Un_iff set_append)
    with X assms(2) show False by blast
  qed
qed

lemma match_after_space_found:
  assumes "pre \<noteq> []" "is_space (last pre)"
    and "d1 \<noteq> []" "list_all is_digit d1" "d2 \<noteq> []" "list_all is_digit d2" "list_all is_space ws"
  shows "match_after_space (pre @ d1 @ ''-'' @ d2 @ '':'' @ ws) = Some [d1, d2]"
  using assms(1,2)
proof (induction pre)
  case Nil
  then show ?case by simp
next
  case (Cons c pre)
  show ?case
  proof (cases "pre = []")
    case True
    with Cons.prems match_lineNumberRange_core[OF assms(3-7)] show ?thesis by simp
  next
    case False
    with Cons.prems have l: "is_space (last pre)" by simp
    have "match_seq lineNumberRange (pre @ d1 @ (''-'' @ d2 @ '':'' @ ws)) = None"
      by (rule match_lineNumberRange_after_space[OF False l assms(3,4)])
    with Cons.IH[OF False l] show ?thesis by simp
  qed
qed

lemma match_after_space_form:
  assumes "match_after_space line = Some g"
  shows "\<exists>pre d1 d2 ws. g = [d1, d2] \<and> line = pre @ d1 @ ''-'' @ d2 @ '':'' @ ws
           \<and> pre \<noteq> [] \<and> is_space (last pre)
           \<and> d1 \<noteq> [] \<and> list_all is_digit d1 \<and> d2 \<noteq> [] \<and> list_all is_digit d2
           \<and> list_all is_space ws"
  using assms
proof (induction line)
  case Nil
  then show ?case by simp
next
  case (Cons c cs)
  show ?case
  proof (cases "is_space c \<and> match_seq lineNumberRange cs \<noteq> None")
    case True
    then obtain g' r where m: "match_seq lineNumberRange cs = Some (g', r)" by auto
    with True Cons.prems have g: "g = g'" by simp
    from match_lineNumberRange_form[OF m] obtain d1 d2 ws where
      "g' = [d1, d2]" "cs = d1 @ ''-'' @ d2 @ '':'' @ ws"
      "d1 \<noteq> []" "list_all is_digit d1" "d2 \<noteq> []" "list_all is_digit d2" "list_all is_space ws"
      by blast
    with True g show ?thesis
      by (intro exI[of _ "[c]"] exI[of _ d1] exI[of _ d2] exI[of _ ws]) simp
  next
    case False
    with Cons.prems have "match_after_space cs = Some g"
      by (cases "match_seq lineNumberRange cs") (auto split: if_splits)
    from Cons.IH[OF this] obtain pre d1 d2 ws where p:
      "g = [d1, d2]" "cs = pre @ d1 @ ''-'' @ d2 @ '':'' @ ws" "pre \<noteq> []" "is_space (last pre)"
      "d1 \<noteq> []" "list_all is_digit d1" "d2 \<noteq> []" "list_all is_digit d2" "list_all is_space ws"
      by blast
    then show ?thesis
      by (intro exI[of _ "c # pre"] exI[of _ d1] exI[of _ d2] exI[of _ ws]) simp
  qed
qed

lemma lineNumberRangeMatch_iff:
  "(lineNumberRangeMatch line = Some g) = (\<exists>d1 d2. g = [d1, d2] \<and> range_line line d1 d2)"
proof
  assume m: "lineNumberRangeMatch line = Some g"
  show "\<exists>d1 d2. g = [d1, d2] \<and> range_line line d1 d2"
  proof (cases "match_seq lineNumberRange line")
    case None
    with m have "match_after_space line = Some g" by (simp add: lineNumberRangeMatch_def)
    from match_after_space_form[OF this] show ?thesis
      unfolding range_line_def by blast
  next
    case (Some a)
    then obtain g' r where a: "match_seq lineNumberRange line = Some (g', r)" by (cases a) auto
    with m have "g = g'" by (simp add: lineNumberRangeMatch_def)
    with match_lineNumberRange_form[OF a] show ?thesis
      unfolding range_line_def by (metis append_Nil)
  qed
next
  assume "\<exists>d1 d2. g = [d1, d2] \<and> range_line line d1 d2"
  then obtain d1 d2 pre ws where g: "g = [d1, d2]"
    and line: "line = pre @ d1 @ ''-'' @ d2 @ '':'' @ ws"
    and pre: "pre = [] \<or> is_space (last pre)"
    and d: "d1 \<noteq> []" "list_all is_digit d1" "d2 \<noteq> []" "list_all is_digit d2" "list_all is_space ws"
    unfolding range_line_def by blast
  show "lineNumberRangeMatch line = Some g"
  proof (cases "pre = []")
    case True
    with match_lineNumberRange_core[OF d] line g show ?thesis
      by (simp add: lineNumberRangeMatch_def)
  next
    case False
    with pre have l: "is_space (last pre)" by simp
    have "match_seq lineNumberRange line = None"
      unfolding line by (rule match_lineNumberRange_after_space[OF False l d(1,2)])
    moreover have "match_after_space line = Some [d1, d2]"
      unfolding line by (rule match_after_space_found[OF False l d])
    ultimately show ?thesis using g by (simp add: lineNumberRangeMatch_def)
  qed
qed

lemma trim_decompose:
  "\<exists>l r. s = l @ trim s @ r \<and> list_all is_space l \<and> list_all is_space r"
proof -
  define u where "u = dropWhile is_space s"
  have "rev u = takeWhile is_space (rev u) @ dropWhile is_space (rev u)" by simp
  then have "u = rev (dropWhile is_space (rev u)) @ rev (takeWhile is_space (rev u))"
    by (metis rev_append rev_rev_ident)
  then have u: "u = trim s @ rev (takeWhile is_space (rev u))" by (simp add: trim_def u_def)
  have "s = takeWhile is_space s @ u" by (simp add: u_def)
  with u have "s = takeWhile is_space s @ trim s @ rev (takeWhile is_space (rev u))" by simp
  moreover have "list_all is_space (takeWhile is_space s)" by (rule list_all_takeWhile)
  moreover have "list_all is_space (rev (takeWhile is_space (rev u)))"
    using list_all_takeWhile[of is_space "rev u"] by (simp add: list_all_iff)
  ultimately show ?thesis by blast
qed

lemma trim_separator: "(trim line = commentSeparator) = separator_line line"
proof
  assume "trim line = commentSeparator"
  with trim_decompose[of line] show "separator_line line"
    unfolding separator_line_def commentSeparator_def by auto
next
  assume "separator_line line"
  then obtain l r where line: "line = l @ ''---'' @ r" and l: "list_all is_space l"
    and r: "list_all is_space r"
    unfolding separator_line_def by blast
  have ns: "\<not> is_space CHR ''-''" by (simp add: is_space_def)
  have "dropWhile is_space line = ''---'' @ r"
    using dropWhile_all[OF l ns, of "''--'' @ r"] by (simp add: line)
  moreover have "dropWhile is_space (rev r @ ''---'') = ''---''"
    using dropWhile_all[of is_space "rev r" "CHR ''-''" "''--''"] r ns
    by (simp add: list_all_iff)
  ultimately show "trim line = commentSeparator"
    by (simp add: trim_def commentSeparator_def)
qed

text \<open>
  Claim C6, as stated, at two responses. The line \<^verbatim>\<open>note 1-2:\<close> is not optional white
  space, a range and a colon, yet it opens a comment at \<open>(1, 2)\<close>. The line \<^verbatim>\<open> ---\<close> is not
  equal to the separator, yet it flushes the comment and returns to idle, so that the line
  after it is not collected.
\<close>

theorem parseReview_scan_counterexample:
  "\<not> claimed_range_line ''note 1-2:''
   \<and> parseReview (''note 1-2:'' @ [CHR 0x0A] @ ''body'') [(1, 2, ''hunk'')]
       = Inr [\<lparr> startLine = 1, endLine = 2, comment = ''body'' @ [CHR 0x0A] \<rparr>]
   \<and> \<not> claimed_separator_line '' ---''
   \<and> parseReview (''1-2:'' @ [CHR 0x0A] @ ''a'' @ [CHR 0x0A] @ '' ---'' @ [CHR 0x0A] @ ''b'')
         [(1, 2, ''hunk'')]
       = Inr [\<lparr> startLine = 1, endLine = 2, comment = ''a'' @ [CHR 0x0A] \<rparr>]"
  by code_simp

text \<open>
  Claim C6, amended. The scan behaves as the machine of the claim, with these two kinds of
  line. A line opens a range exactly when it ends with \<^verbatim>\<open>start-end:\<close> and optional white
  space, the range standing at the start of the line or after a white-space character
  (any text may come before); such a line flushes the comment in progress and opens a new
  one at \<open>(start, end)\<close>. A line is a separator exactly when it is \<^verbatim>\<open>---\<close> between
  optional white space; such a line, when it opens no range, flushes and returns to idle.
  Any other line is appended with its newline to the comment in progress, and is skipped
  when no comment is in progress. The end of the input performs a final flush. The scan
  starts idle, on the lines of the trimmed and sanitized response.
\<close>

theorem parseReview_scan:
  "(lineNumberRangeMatch line = Some g) = (\<exists>d1 d2. g = [d1, d2] \<and> range_line line d1 d2)
   \<and> (trim line = commentSeparator) = separator_line line
   \<and> (range_line line d1 d2 \<longrightarrow>
        parseReview_loop patches cur reviews (line # rest) =
          (case storeReview patches cur reviews of
             Inl err \<Rightarrow> Inl err
           | Inr reviews' \<Rightarrow>
               parseReview_loop patches (Some (parseInt d1), Some (parseInt d2), []) reviews' rest))
   \<and> ((\<forall>d1 d2. \<not> range_line line d1 d2) \<and> separator_line line \<longrightarrow>
        parseReview_loop patches cur reviews (line # rest) =
          (case storeReview patches cur reviews of
             Inl err \<Rightarrow> Inl err
           | Inr reviews' \<Rightarrow> parseReview_loop patches (None, None, []) reviews' rest))
   \<and> ((\<forall>d1 d2. \<not> range_line line d1 d2) \<and> \<not> separator_line line \<longrightarrow>
        parseReview_loop patches (Some s, Some e, c) reviews (line # rest) =
          parseReview_loop patches (Some s, Some e, c @ line @ [CHR 0x0A]) reviews rest)
   \<and> ((\<forall>d1 d2. \<not> range_line line d1 d2) \<and> \<not> separator_line line \<and> \<not> collecting cur \<longrightarrow>
        parseReview_loop patches cur reviews (line # rest) =
          parseReview_loop patches cur reviews rest)
   \<and> parseReview_loop patches cur reviews [] = storeReview patches cur reviews
   \<and> parseReview response patches =
        parseReview_loop patches (None, None, []) [] (response_lines response)"
proof -
  have none: "lineNumberRangeMatch line = None" if "\<forall>d1 d2. \<not> range_line line d1 d2"
  proof (cases "lineNumberRangeMatch line")
    case None
    then show ?thesis .
  next
    case (Some g')
    with lineNumberRangeMatch_iff[of line g'] that show ?thesis by blast
  qed
  have a: "(lineNumberRangeMatch line = Some g) = (\<exists>d1 d2. g = [d1, d2] \<and> range_line line d1 d2)"
    by (rule lineNumberRangeMatch_iff)
  have b: "(trim line = commentSeparator) = separator_line line"
    by (rule trim_separator)
  have c: "range_line line d1 d2 \<longrightarrow>
        parseReview_loop patches cur reviews (line # rest) =
          (case storeReview patches cur reviews of
             Inl err \<Rightarrow> Inl err
           | Inr reviews' \<Rightarrow>
               parseReview_loop patches (Some (parseInt d1), Some (parseInt d2), []) reviews' rest)"
  proof
    assume "range_line line d1 d2"
    then have "lineNumberRangeMatch line = Some [d1, d2]"
      using lineNumberRangeMatch_iff[of line "[d1, d2]"] by blast
    then show "parseReview_loop patches cur reviews (line # rest) =
          (case storeReview patches cur reviews of
             Inl err \<Rightarrow> Inl err
           | Inr reviews' \<Rightarrow>
               parseReview_loop patches (Some (parseInt d1), Some (parseInt d2), []) reviews' rest)"
      by (simp split: sum.splits)
  qed
  have d: "(\<forall>d1 d2. \<not> range_line line d1 d2) \<and> separator_line line \<longrightarrow>
        parseReview_loop patches cur reviews (line # rest) =
          (case storeReview patches cur reviews of
             Inl err \<Rightarrow> Inl err
           | Inr reviews' \<Rightarrow> parseReview_loop patches (None, None, []) reviews' rest)"
    using none b by simp
  have e: "(\<forall>d1 d2. \<not> range_line line d1 d2) \<and> \<not> separator_line line \<longrightarrow>
        parseReview_loop patches (Some s, Some e, c) reviews (line # rest) =
          parseReview_loop patches (Some s, Some e, c @ line @ [CHR 0x0A]) reviews rest"
    using none b by simp
  have f: "(\<forall>d1 d2. \<not> range_line line d1 d2) \<and> \<not> separator_line line \<and> \<not> collecting cur \<longrightarrow>
        parseReview_loop patches cur reviews (line # rest) =
          parseReview_loop patches cur reviews rest"
  proof
    assume h: "(\<forall>d1 d2. \<not> range_line line d1 d2) \<and> \<not> separator_line line \<and> \<not> collecting cur"
    then have "lineNumberRangeMatch line = None" "trim line \<noteq> commentSeparator"
      using none b by simp_all
    with h show "parseReview_loop patches cur reviews (line # rest) =
          parseReview_loop patches cur reviews rest"
      by (cases cur rule: collecting.cases) (simp_all split: option.splits)
  qed
  have g: "parseReview_loop patches cur reviews [] = storeReview patches cur reviews" by simp
  have h: "parseReview response patches =
        parseReview_loop patches (None, None, []) [] (response_lines response)"
    by (simp add: parseReview_def)
  from a b c d e f g h show ?thesis by (intro conjI)
qed

theorem parseReview_scan_witness:
  "range_line ''note 1-2:'' ''1'' ''2''
   \<and> parseReview_loop [(1, 2, ''hunk'')] (None, None, []) [] [''note 1-2:'', ''body'']
       = Inr [\<lparr> startLine = 1, endLine = 2, comment = ''body'' @ [CHR 0x0A] \<rparr>]
   \<and> separator_line '' ---''
   \<and> parseReview_loop [(1, 2, ''hunk'')] (Some 1, Some 2, ''a'') [] ['' ---'', ''b'']
       = Inr [\<lparr> startLine = 1, endLine = 2, comment = ''a'' \<rparr>]"
proof -
  have m: "lineNumberRangeMatch ''note 1-2:'' = Some [''1'', ''2'']" by code_simp
  have t: "trim '' ---'' = commentSeparator" by code_simp
  have a: "range_line ''note 1-2:'' ''1'' ''2''"
    using parseReview_scan[of "''note 1-2:''" "[''1'', ''2'']"] m by simp
  have b: "separator_line '' ---''"
    using parseReview_scan[of "'' ---''"] t by simp
  have c: "parseReview_loop [(1, 2, ''hunk'')] (None, None, []) [] [''note 1-2:'', ''body'']
       = Inr [\<lparr> startLine = 1, endLine = 2, comment = ''body'' @ [CHR 0x0A] \<rparr>]"
    by code_simp
  have d: "parseReview_loop [(1, 2, ''hunk'')] (Some 1, Some 2, ''a'') [] ['' ---'', ''b'']
       = Inr [\<lparr> startLine = 1, endLine = 2, comment = ''a'' \<rparr>]"
    by code_simp
  from a c b d show ?thesis by (intro conjI)
qed

section \<open>The sanitizer changes closed blocks only\<close>





lemma indexOf_from_at:
  "k \<le> length s \<Longrightarrow> indexOf_from s p k = map_option (\<lambda>i. i + k) (indexOf (drop k s) p)"
  by (simp add: indexOf_from_def Let_def min_def)










end
